theory Spec2Isabelle
  imports Main
begin

section \<open>Data model of \<open>impurity_trace\<close>\<close>

text \<open>
  The class \<open>impurity_trace\<close> keeps its operators in a red-black tree whose nodes are
  heap objects linked by raw pointers; trial insertions and substitutions link nodes of
  two pools into the same tree. Claims about unlinking and restoring depend on which
  pointer refers to which object, so the nodes live in an explicit store: an address is
  a natural number, a pointer is an optional address (\<open>None\<close> is \<open>nullptr\<close>).
\<close>

type_synonym addr = nat
type_synonym node = "addr option"

text \<open>
  Modelled from the spec: \<open>time_pt\<close> is declared outside the source at hand; the spec
  calls it a totally ordered value, taken here as a natural number (the default
  constructed \<open>time_pt{}\<close> is \<open>0\<close>). The tree is ordered by \<open>std::greater<time_pt>\<close>.
\<close>

type_synonym time_pt = nat

definition comparator :: "time_pt \<Rightarrow> time_pt \<Rightarrow> bool" where
  "comparator a b = (a > b)"

text \<open>
  Modelled from the spec: \<open>op_desc\<close> is declared outside the source at hand; these are
  the three fields the source reads.
\<close>

record op_desc =
  block_index :: int
  dagger :: bool
  linear_index :: int

definition default_op :: op_desc where
  "default_op = \<lparr>block_index = 0, dagger = False, linear_index = 0\<rparr>"

text \<open>
  \<open>cache_t\<close>, the data cached in each node. The type \<open>'d\<close> stands for \<open>double\<close>: the
  operations modelled here only copy such values, they never compute with them.
\<close>

record 'd cache_t =
  dtau_l :: 'd
  dtau_r :: 'd
  block_table :: "int list"
  matrices :: "'d list list list"
  matrix_lnorms :: "'d list"
  matrix_norm_valid :: "bool list"

definition new_cache :: "int \<Rightarrow> ('d::zero) cache_t" where
  "new_cache nb = \<lparr>dtau_l = 0, dtau_r = 0, block_table = replicate (nat nb) 0,
     matrices = replicate (nat nb) [], matrix_lnorms = replicate (nat nb) 0,
     matrix_norm_valid = replicate (nat nb) False\<rparr>"

text \<open>
  A node of \<open>rb_tree_t\<close>: the fields of \<open>node_data_t\<close> (\<open>op\<close>, \<open>cache\<close>) and the fields the
  source reads and writes through \<open>node\<close> pointers (\<open>key\<close>, \<open>left\<close>, \<open>right\<close>, \<open>color\<close>,
  \<open>N\<close>, \<open>modified\<close>, \<open>delete_flag\<close>).
\<close>

record 'd node_t =
  key :: time_pt
  op :: op_desc
  cache :: "'d cache_t"
  left :: node
  right :: node
  color :: bool
  N :: int
  modified :: bool
  delete_flag :: bool

record 'd bool_and_matrix =
  is_valid :: bool
  mat :: "'d list list"

text \<open>The pool of detached nodes, \<open>nodes_storage\<close>.\<close>

record nodes_storage =
  n_blocks :: int
  nodes :: "node list"
  i :: int

text \<open>
  The state of one \<open>impurity_trace\<close> instance. \<open>heap\<close> is the store of node objects,
  \<open>next_free\<close> the next address \<open>new\<close> hands out, \<open>root\<close> the root pointer of \<open>tree\<close>.
\<close>

record 'd impurity_trace =
  use_norm_as_weight :: bool
  measure_density_matrix :: bool
  density_matrix :: "'d bool_and_matrix list"
  atomic_rho :: "'d bool_and_matrix list"
  atomic_z :: 'd
  atomic_norm :: 'd
  heap :: "addr \<Rightarrow> 'd node_t"
  next_free :: addr
  root :: node
  tree_size :: int
  trial_nodes :: nodes_storage
  inserted_nodes :: "(node \<times> bool) list"
  removed_nodes :: "node list"
  removed_keys :: "time_pt list"
  backup_nodes :: nodes_storage

text \<open>
  Errors. \<open>RuntimeError\<close> is what \<open>TRIQS_RUNTIME_ERROR\<close> throws, \<open>RbtInsertError\<close> is
  \<open>rbt_insert_error\<close>. \<open>NullDeref\<close> and \<open>OutOfRange\<close> stand for the two undefined
  behaviours the source can run into: dereferencing \<open>nullptr\<close> and indexing a
  \<open>std::vector\<close> outside its bounds. An error comes with the state of the instance at
  the moment it was raised, since the object outlives the exception.

  A traversal of the store that never returns has the value \<open>None\<close>.
\<close>

datatype error = RuntimeError | RbtInsertError | NullDeref | OutOfRange

type_synonym ('a, 's) result = "(error \<times> 's + 'a \<times> 's) option"

definition in_range :: "int \<Rightarrow> 'a list \<Rightarrow> bool" where
  "in_range j xs = (0 \<le> j \<and> j < int (length xs))"

definition node_update :: "addr \<Rightarrow> ('d node_t \<Rightarrow> 'd node_t) \<Rightarrow> 'd impurity_trace \<Rightarrow> 'd impurity_trace" where
  "node_update a f s = s\<lparr>heap := (heap s)(a := f (heap s a))\<rparr>"

text \<open>Reading and writing the left or the right child pointer of a node.\<close>

definition get_child :: "bool \<Rightarrow> 'd node_t \<Rightarrow> node" where
  "get_child is_left nd = (if is_left then left nd else right nd)"

definition set_child :: "bool \<Rightarrow> node \<Rightarrow> 'd node_t \<Rightarrow> 'd node_t" where
  "set_child is_left c nd = (if is_left then nd\<lparr>left := c\<rparr> else nd\<lparr>right := c\<rparr>)"

section \<open>The pool of detached nodes\<close>

definition make_new_node :: "int \<Rightarrow> ('d::zero) impurity_trace \<Rightarrow> node \<times> 'd impurity_trace" where
  \<comment> \<open>\<open>new node_t(time_pt{}, node_data_t{{}, n_blocks}, false, 1)\<close>. The constructor of the
      tree's node is outside the source at hand: a fresh node has no children, and its
      two flags are taken as \<open>modified = True\<close>, \<open>delete_flag = False\<close>.\<close>
  "make_new_node nb s =
     (Some (next_free s),
      s\<lparr>heap := (heap s)(next_free s :=
           \<lparr>key = 0, op = default_op, cache = new_cache nb, left = None, right = None,
            color = False, N = 1, modified = True, delete_flag = False\<rparr>),
        next_free := Suc (next_free s)\<rparr>)"

fun push_new_nodes :: "nat \<Rightarrow> nodes_storage \<Rightarrow> ('d::zero) impurity_trace \<Rightarrow> nodes_storage \<times> 'd impurity_trace" where
  "push_new_nodes 0 p s = (p, s)"
| "push_new_nodes (Suc k) p s =
     (case make_new_node (n_blocks p) s of
        (n, s1) \<Rightarrow> push_new_nodes k (p\<lparr>nodes := nodes p @ [n]\<rparr>) s1)"

definition reserve :: "int \<Rightarrow> nodes_storage \<Rightarrow> ('d::zero) impurity_trace \<Rightarrow> nodes_storage \<times> 'd impurity_trace" where
  \<comment> \<open>\<open>for (j = nodes.size(); j < size; ++j) nodes.push_back(make_new_node())\<close>\<close>
  "reserve sz p s =
     (if sz > int (length (nodes p)) then push_new_nodes (nat (sz - int (length (nodes p)))) p s
      else (p, s))"

definition index :: "nodes_storage \<Rightarrow> int" where
  "index p = i p"

definition is_index_reset :: "nodes_storage \<Rightarrow> bool" where
  "is_index_reset p = (i p = - 1)"

definition reset_index :: "nodes_storage \<Rightarrow> int \<times> nodes_storage" where
  "reset_index p = (i p, p\<lparr>i := - 1\<rparr>)"

definition swap_next :: "node \<Rightarrow> nodes_storage \<Rightarrow> error + node \<times> nodes_storage" where
  \<comment> \<open>\<open>std::swap(n, nodes[++i]); return n;\<close>\<close>
  "swap_next n p =
     (let j = i p + 1 in
      if in_range j (nodes p)
      then Inr (nodes p ! nat j, p\<lparr>nodes := (nodes p)[nat j := n], i := j\<rparr>)
      else Inl OutOfRange)"

definition swap_prev :: "node \<Rightarrow> nodes_storage \<Rightarrow> error + node \<times> nodes_storage" where
  \<comment> \<open>\<open>std::swap(n, nodes[i--]); return n;\<close>\<close>
  "swap_prev n p =
     (let j = i p in
      if in_range j (nodes p)
      then Inr (nodes p ! nat j, p\<lparr>nodes := (nodes p)[nat j := n], i := j - 1\<rparr>)
      else Inl OutOfRange)"

definition take_next :: "nodes_storage \<Rightarrow> error + node \<times> nodes_storage" where
  \<comment> \<open>\<open>return nodes[++i];\<close>\<close>
  "take_next p =
     (let j = i p + 1 in
      if in_range j (nodes p) then Inr (nodes p ! nat j, p\<lparr>i := j\<rparr>) else Inl OutOfRange)"

definition take_prev :: "nodes_storage \<Rightarrow> error + node \<times> nodes_storage" where
  \<comment> \<open>\<open>return nodes[i--];\<close>\<close>
  "take_prev p =
     (let j = i p in
      if in_range j (nodes p) then Inr (nodes p ! nat j, p\<lparr>i := j - 1\<rparr>) else Inl OutOfRange)"

section \<open>Operations of the tree library used by the source\<close>

text \<open>
  Modelled from the spec: \<open>rb_tree\<close> comes from a library outside the source at hand.
  The spec describes a tree node as owning a key, an operator descriptor, its two
  children, a colour bit and a subtree size, a modified flag and a delete flag, and says
  that a node's key and operator are overwritten (reset) when the node is reused.
  \<open>reset\<close> of a node therefore writes the key and, through \<open>node_data_t::reset\<close> of the
  source, the operator.
\<close>

definition reset :: "addr \<Rightarrow> time_pt \<Rightarrow> op_desc \<Rightarrow> 'd impurity_trace \<Rightarrow> 'd impurity_trace" where
  "reset a k o_new s = node_update a (\<lambda>nd. nd\<lparr>key := k, op := o_new\<rparr>) s"

text \<open>
  Modelled from the spec: \<open>tree.size()\<close>. The subtree size kept in each node serves the
  size queries, so the size of the tree is the count stored in the root, and \<open>0\<close> for
  the empty tree.
\<close>

definition rbt_size :: "'d impurity_trace \<Rightarrow> int" where
  "rbt_size s = (case root s of None \<Rightarrow> 0 | Some r \<Rightarrow> N (heap s r))"

text \<open>
  Modelled from the spec: \<open>tree.clear_modified()\<close> clears the transient modified flag
  of the nodes of the tree.
\<close>

partial_function (option) clear_modified_impl :: "node \<Rightarrow> 'd impurity_trace \<Rightarrow> 'd impurity_trace option" where
  "clear_modified_impl p s =
     (case p of None \<Rightarrow> Some s
      | Some a \<Rightarrow>
          Option.bind (clear_modified_impl (left (heap s a)) s) (\<lambda>s1.
          Option.bind (clear_modified_impl (right (heap s1 a)) s1) (\<lambda>s2.
          Some (node_update a (\<lambda>nd. nd\<lparr>modified := False\<rparr>) s2))))"

definition clear_modified :: "'d impurity_trace \<Rightarrow> 'd impurity_trace option" where
  "clear_modified s = clear_modified_impl (root s) s"

text \<open>
  Modelled from the spec: \<open>tree.set_modified_from_root_to(key)\<close> marks every node on the
  path from the root to the node holding the key (the source's comment says the same),
  following the comparator from the root.
\<close>

partial_function (option) set_modified_impl :: "node \<Rightarrow> time_pt \<Rightarrow> 'd impurity_trace \<Rightarrow> 'd impurity_trace option" where
  "set_modified_impl p k s =
     (case p of None \<Rightarrow> Some s
      | Some a \<Rightarrow>
          (let s1 = node_update a (\<lambda>nd. nd\<lparr>modified := True\<rparr>) s in
           if k = key (heap s a) then Some s1
           else set_modified_impl
                  (if comparator k (key (heap s a)) then left (heap s a) else right (heap s a)) k s1))"

definition set_modified_from_root_to :: "time_pt \<Rightarrow> 'd impurity_trace \<Rightarrow> 'd impurity_trace option" where
  "set_modified_from_root_to k s = set_modified_impl (root s) k s"

text \<open>
  Modelled from the spec: \<open>find_if(tree, f)\<close> walks the tree in order, calls the
  predicate on each node and stops at the first node for which it holds; it returns
  that node, or \<open>nullptr\<close> when there is none. The predicate of the source counts, so
  it is a function of the node and of its counter.
\<close>

partial_function (option) find_if_impl ::
    "node \<Rightarrow> ('d node_t \<Rightarrow> int \<Rightarrow> bool \<times> int) \<Rightarrow> int \<Rightarrow> (addr \<Rightarrow> 'd node_t) \<Rightarrow> (node \<times> int) option" where
  "find_if_impl p f c h =
     (case p of None \<Rightarrow> Some (None, c)
      | Some a \<Rightarrow>
          Option.bind (find_if_impl (left (h a)) f c h) (\<lambda>(x, c1).
            case x of Some b \<Rightarrow> Some (Some b, c1)
            | None \<Rightarrow>
               (case f (h a) c1 of
                  (found, c2) \<Rightarrow>
                     if found then Some (Some a, c2) else find_if_impl (right (h a)) f c2 h)))"

definition find_if :: "'d impurity_trace \<Rightarrow> ('d node_t \<Rightarrow> int \<Rightarrow> bool \<times> int) \<Rightarrow> (node \<times> int) option" where
  "find_if s f = find_if_impl (root s) f 0 (heap s)"

text \<open>
  Modelled from the spec: \<open>check_cache_integrity\<close> is defined outside the source at hand;
  it is the optional self-check of the spec, which compares and reports and changes
  nothing.
\<close>

definition check_cache_integrity :: "'d impurity_trace \<Rightarrow> 'd impurity_trace" where
  "check_cache_integrity s = s"

text \<open>
  Modelled from the spec: \<open>update_cache\<close> is defined outside the source at hand. The cache
  engine recomputes, bottom-up, the cache entries of the nodes reachable from a modified
  marker and skips a node whose modified flag is clear. The recomputation itself is
  numerical and enters as the parameter \<open>rc\<close>, which gives the new cache of a node.
\<close>

partial_function (option) update_cache_impl ::
    "(addr \<Rightarrow> 'd impurity_trace \<Rightarrow> 'd cache_t) \<Rightarrow> node \<Rightarrow> 'd impurity_trace \<Rightarrow> 'd impurity_trace option" where
  "update_cache_impl rc p s =
     (case p of None \<Rightarrow> Some s
      | Some a \<Rightarrow>
          if \<not> modified (heap s a) then Some s
          else
            Option.bind (update_cache_impl rc (left (heap s a)) s) (\<lambda>s1.
            Option.bind (update_cache_impl rc (right (heap s1 a)) s1) (\<lambda>s2.
            Some (node_update a (\<lambda>nd. nd\<lparr>cache := rc a s2\<rparr>) s2))))"

definition update_cache :: "(addr \<Rightarrow> 'd impurity_trace \<Rightarrow> 'd cache_t) \<Rightarrow> 'd impurity_trace \<Rightarrow> 'd impurity_trace option" where
  "update_cache rc s = update_cache_impl rc (root s) s"

section \<open>Node insertion\<close>

text \<open>
  The part of \<open>try_insert_impl\<close> after its recursive call: the child pointer of \<open>h\<close> is
  written, the first frame to return records the parent and the side, and \<open>h\<close> is marked.
\<close>

definition link_and_mark :: "addr \<Rightarrow> bool \<Rightarrow> node \<Rightarrow> 'd impurity_trace \<Rightarrow> (node, 'd impurity_trace) result" where
  "link_and_mark ha smaller c s1 =
     (let s2 = node_update ha (set_child smaller c) s1;
          j = index (trial_nodes s2)
      in if \<not> in_range j (inserted_nodes s2) then Some (Inl (OutOfRange, s2))
         else
           (let s3 = (if fst (inserted_nodes s2 ! nat j) = None
                      then s2\<lparr>inserted_nodes := (inserted_nodes s2)[nat j := (Some ha, smaller)]\<rparr>
                      else s2)
            in Some (Inr (Some ha, node_update ha (\<lambda>nd. nd\<lparr>modified := True\<rparr>) s3))))"

partial_function (option) try_insert_impl :: "node \<Rightarrow> node \<Rightarrow> 'd impurity_trace \<Rightarrow> (node, 'd impurity_trace) result" where
  "try_insert_impl h n s =
     (case h of None \<Rightarrow> Some (Inr (n, s))
      | Some ha \<Rightarrow>
         (case n of None \<Rightarrow> Some (Inl (NullDeref, s))
          | Some na \<Rightarrow>
             if key (heap s ha) = key (heap s na) then Some (Inl (RbtInsertError, s))
             else
               (let smaller = comparator (key (heap s na)) (key (heap s ha)) in
                Option.bind (try_insert_impl (get_child smaller (heap s ha)) n s)
                  (\<lambda>r. case r of Inl e \<Rightarrow> Some (Inl e)
                     | Inr (c, s1) \<Rightarrow> link_and_mark ha smaller c s1))))"

text \<open>The loop of \<open>cancel_insert_impl\<close>, over the indices \<open>0, \<dots>, trial_nodes.index()\<close>.\<close>

fun unlink_trial_nodes :: "nat list \<Rightarrow> 'd impurity_trace \<Rightarrow> error \<times> 'd impurity_trace + 'd impurity_trace" where
  "unlink_trial_nodes [] s = Inr s"
| "unlink_trial_nodes (j # js) s =
     (if \<not> in_range (int j) (inserted_nodes s) then Inl (OutOfRange, s)
      else
        (case inserted_nodes s ! j of
           (None, _) \<Rightarrow> unlink_trial_nodes js s
         | (Some p, is_left) \<Rightarrow>
             unlink_trial_nodes js (node_update p (set_child is_left None) s)))"

definition cancel_insert_impl :: "'d impurity_trace \<Rightarrow> error \<times> 'd impurity_trace + 'd impurity_trace" where
  "cancel_insert_impl s =
     (case unlink_trial_nodes [0 ..< nat (index (trial_nodes s) + 1)] s of
        Inl e \<Rightarrow> Inl e
      | Inr s1 \<Rightarrow>
          Inr (if tree_size s1 = index (trial_nodes s1) + 1 then s1\<lparr>root := None\<rparr> else s1))"

text \<open>The destructor \<open>~impurity_trace\<close>: the teardown path calls \<open>cancel_insert_impl\<close> and nothing else.\<close>

definition teardown :: "'d impurity_trace \<Rightarrow> error \<times> 'd impurity_trace + 'd impurity_trace" where
  "teardown s = cancel_insert_impl s"

definition try_insert :: "time_pt \<Rightarrow> op_desc \<Rightarrow> 'd impurity_trace \<Rightarrow> (error \<times> 'd impurity_trace + 'd impurity_trace) option" where
  "try_insert tau o_new s =
     (if index (trial_nodes s) > 3 then Some (Inl (RuntimeError, s))
      else
        (case take_next (trial_nodes s) of
           Inl e \<Rightarrow> Some (Inl (e, s))
         | Inr (n, tn) \<Rightarrow>
            (let s1 = s\<lparr>trial_nodes := tn\<rparr> in
             if \<not> in_range (index (trial_nodes s1)) (inserted_nodes s1) then Some (Inl (OutOfRange, s1))
             else
               (let s2 = s1\<lparr>inserted_nodes :=
                              (inserted_nodes s1)[nat (index (trial_nodes s1)) := (None, False)]\<rparr>
                in case n of None \<Rightarrow> Some (Inl (NullDeref, s2))
                   | Some na \<Rightarrow>
                      (let s3 = reset na tau o_new s2 in
                       Option.bind (try_insert_impl (root s3) n s3)
                         (\<lambda>r. case r of Inl e \<Rightarrow> Some (Inl e)
                            | Inr (new_root, s4) \<Rightarrow>
                                Some (Inr (s4\<lparr>root := new_root, tree_size := tree_size s4 + 1\<rparr>))))))))"

definition cancel_insert :: "'d impurity_trace \<Rightarrow> (error \<times> 'd impurity_trace + 'd impurity_trace) option" where
  "cancel_insert s =
     (case cancel_insert_impl s of
        Inl e \<Rightarrow> Some (Inl e)
      | Inr s1 \<Rightarrow>
         (let s2 = s1\<lparr>trial_nodes := snd (reset_index (trial_nodes s1))\<rparr>;
              s3 = s2\<lparr>tree_size := rbt_size s2\<rparr>
          in Option.bind (clear_modified s3) (\<lambda>s4. Some (Inr (check_cache_integrity s4)))))"

text \<open>A sequence of \<open>try_insert\<close> calls; it stops at the first call that raises.\<close>

fun try_insert_seq :: "(time_pt \<times> op_desc) list \<Rightarrow> 'd impurity_trace \<Rightarrow> (error \<times> 'd impurity_trace + 'd impurity_trace) option" where
  "try_insert_seq [] s = Some (Inr s)"
| "try_insert_seq ((tau, o_new) # rest) s =
     (case try_insert tau o_new s of
        None \<Rightarrow> None
      | Some (Inl e) \<Rightarrow> Some (Inl e)
      | Some (Inr s1) \<Rightarrow> try_insert_seq rest s1)"

section \<open>Node removal\<close>

definition delete_pred :: "int \<Rightarrow> int \<Rightarrow> bool \<Rightarrow> 'd node_t \<Rightarrow> int \<Rightarrow> bool \<times> int" where
  \<comment> \<open>the lambda of \<open>try_delete\<close>; its captured counter is the last argument\<close>
  "delete_pred n b d no c =
     (let c1 = (if dagger (op no) = d \<and> block_index (op no) = b then c + 1 else c)
      in (c1 = n + 1, c1))"

definition try_delete :: "int \<Rightarrow> int \<Rightarrow> bool \<Rightarrow> 'd impurity_trace \<Rightarrow> (time_pt, 'd impurity_trace) result" where
  "try_delete n b d s =
     Option.bind (find_if s (delete_pred n b d)) (\<lambda>(x, c).
       (let s1 = s\<lparr>removed_nodes := removed_nodes s @ [x]\<rparr> in
        case x of None \<Rightarrow> Some (Inl (NullDeref, s1))
        | Some xa \<Rightarrow>
           (let s2 = s1\<lparr>removed_keys := removed_keys s1 @ [key (heap s1 xa)]\<rparr> in
            Option.bind (set_modified_from_root_to (key (heap s2 xa)) s2) (\<lambda>s3.
              (let s4 = node_update xa (\<lambda>nd. nd\<lparr>delete_flag := True\<rparr>) s3;
                   s5 = s4\<lparr>tree_size := tree_size s4 - 1\<rparr>
               in Some (Inr (key (heap s5 xa), s5)))))))"

section \<open>Node replacement\<close>

text \<open>
  The part of \<open>try_replace_impl\<close> after its two recursive calls: the node \<open>na\<close> is
  swapped against the next node of the substitution pool when its operator or one of its
  children changes.
\<close>

definition replace_node ::
    "addr \<Rightarrow> node \<Rightarrow> node \<Rightarrow> op_desc list \<Rightarrow> op_desc list \<Rightarrow> 'd impurity_trace \<Rightarrow> (node, 'd impurity_trace) result" where
  "replace_node na new_left new_right substitute_c substitute_c_dag s =
     (let o_old = op (heap s na);
          table = (if dagger o_old then substitute_c_dag else substitute_c)
      in if \<not> in_range (linear_index o_old) table then Some (Inl (OutOfRange, s))
         else
           (let new_op = table ! nat (linear_index o_old);
                op_changed = (linear_index new_op \<noteq> linear_index o_old)
            in if op_changed \<or> new_left \<noteq> left (heap s na) \<or> new_right \<noteq> right (heap s na)
               then
                 (let k = key (heap s na);
                      col = color (heap s na);
                      cnt = N (heap s na)
                  in case swap_next (Some na) (backup_nodes s) of
                       Inl e \<Rightarrow> Some (Inl (e, s))
                     | Inr (new_node, bp) \<Rightarrow>
                        (let s3 = s\<lparr>backup_nodes := bp\<rparr> in
                         case new_node of None \<Rightarrow> Some (Inl (NullDeref, s3))
                         | Some nn \<Rightarrow>
                            (let s4 = reset nn k (if op_changed then new_op else o_old) s3;
                                 s5 = node_update nn
                                        (\<lambda>nd. nd\<lparr>left := new_left, right := new_right,
                                                 color := col, N := cnt, modified := True\<rparr>) s4
                             in Some (Inr (new_node, s5)))))
               else Some (Inr (Some na, s))))"

partial_function (option) try_replace_impl ::
    "node \<Rightarrow> op_desc list \<Rightarrow> op_desc list \<Rightarrow> 'd impurity_trace \<Rightarrow> (node, 'd impurity_trace) result" where
  "try_replace_impl n substitute_c substitute_c_dag s =
     (case n of None \<Rightarrow> Some (Inl (NullDeref, s))
      | Some na \<Rightarrow>
         Option.bind
           (case left (heap s na) of None \<Rightarrow> Some (Inr (None, s))
            | Some l \<Rightarrow> try_replace_impl (Some l) substitute_c substitute_c_dag s)
           (\<lambda>r1. case r1 of Inl e \<Rightarrow> Some (Inl e)
              | Inr (new_left, s1) \<Rightarrow>
                 Option.bind
                   (case right (heap s1 na) of None \<Rightarrow> Some (Inr (None, s1))
                    | Some r \<Rightarrow> try_replace_impl (Some r) substitute_c substitute_c_dag s1)
                   (\<lambda>r2. case r2 of Inl e \<Rightarrow> Some (Inl e)
                      | Inr (new_right, s2) \<Rightarrow>
                          replace_node na new_left new_right substitute_c substitute_c_dag s2)))"

definition try_replace :: "op_desc list \<Rightarrow> op_desc list \<Rightarrow> ('d::zero) impurity_trace \<Rightarrow> (error \<times> 'd impurity_trace + 'd impurity_trace) option" where
  \<comment> \<open>\<open>try_replace\<close> is declared \<open>noexcept\<close>: the error it throws ends the program.\<close>
  "try_replace substitute_c substitute_c_dag s =
     (if tree_size s = 0 then Some (Inr s)
      else if \<not> is_index_reset (backup_nodes s) then Some (Inl (RuntimeError, s))
      else
        (case reserve (rbt_size s) (backup_nodes s) s of
           (bp, s1) \<Rightarrow>
             (let s2 = s1\<lparr>backup_nodes := bp\<rparr> in
              Option.bind (try_replace_impl (root s2) substitute_c substitute_c_dag s2)
                (\<lambda>r. case r of Inl e \<Rightarrow> Some (Inl e)
                   | Inr (new_root, s3) \<Rightarrow> Some (Inr (s3\<lparr>root := new_root\<rparr>))))))"

definition confirm_replace :: "(addr \<Rightarrow> 'd impurity_trace \<Rightarrow> 'd cache_t) \<Rightarrow> 'd impurity_trace \<Rightarrow> (error \<times> 'd impurity_trace + 'd impurity_trace) option" where
  "confirm_replace rc s =
     (let s1 = s\<lparr>backup_nodes := snd (reset_index (backup_nodes s))\<rparr> in
      Option.bind (update_cache rc s1) (\<lambda>s2.
      Option.bind (clear_modified s2) (\<lambda>s3. Some (Inr (check_cache_integrity s3)))))"

section \<open>Well-formed trees\<close>

text \<open>
  The shape of a tree in the store: which address sits where. \<open>is_tree h p t\<close> says that
  following the child pointers of the store \<open>h\<close> from the pointer \<open>p\<close> gives the shape \<open>t\<close>.
\<close>

datatype shape = Leaf | Node shape addr shape

fun inorder :: "shape \<Rightarrow> addr list" where
  "inorder Leaf = []"
| "inorder (Node l a r) = inorder l @ a # inorder r"

fun is_tree :: "(addr \<Rightarrow> 'd node_t) \<Rightarrow> node \<Rightarrow> shape \<Rightarrow> bool" where
  "is_tree h p Leaf = (p = None)"
| "is_tree h p (Node l a r) = (p = Some a \<and> is_tree h (left (h a)) l \<and> is_tree h (right (h a)) r)"

text \<open>The search-tree order under the comparator of the tree.\<close>

fun bst :: "(addr \<Rightarrow> 'd node_t) \<Rightarrow> shape \<Rightarrow> bool" where
  "bst h Leaf = True"
| "bst h (Node l a r) =
     (bst h l \<and> bst h r
      \<and> list_all (\<lambda>b. comparator (key (h b)) (key (h a))) (inorder l)
      \<and> list_all (\<lambda>b. comparator (key (h a)) (key (h b))) (inorder r))"

text \<open>The path from the root of a shape down to an address in it.\<close>

fun root_path :: "addr \<Rightarrow> shape \<Rightarrow> addr list" where
  "root_path x Leaf = []"
| "root_path x (Node l a r) =
     (if x = a then [a]
      else if x \<in> set (inorder l) then a # root_path x l
      else if x \<in> set (inorder r) then a # root_path x r
      else [])"

text \<open>The nodes a search for the key \<open>k\<close> visits: down to the node holding \<open>k\<close>, or to a leaf.\<close>

fun search_path :: "(addr \<Rightarrow> 'd node_t) \<Rightarrow> time_pt \<Rightarrow> shape \<Rightarrow> addr list" where
  "search_path h k Leaf = []"
| "search_path h k (Node l a r) =
     a # (if k = key (h a) then []
          else if comparator k (key (h a)) then search_path h k l
          else search_path h k r)"

text \<open>The store with \<open>f\<close> applied to the nodes at the addresses in \<open>A\<close>.\<close>

definition heap_map :: "addr set \<Rightarrow> ('d node_t \<Rightarrow> 'd node_t) \<Rightarrow> (addr \<Rightarrow> 'd node_t) \<Rightarrow> (addr \<Rightarrow> 'd node_t)" where
  "heap_map A f h = (\<lambda>a. if a \<in> A then f (h a) else h a)"

text \<open>The in-order search of \<open>find_if\<close> on the list of the nodes in order.\<close>

fun find_list :: "('d node_t \<Rightarrow> int \<Rightarrow> bool \<times> int) \<Rightarrow> int \<Rightarrow> (addr \<Rightarrow> 'd node_t) \<Rightarrow> addr list \<Rightarrow> node \<times> int" where
  "find_list f c h [] = (None, c)"
| "find_list f c h (a # as) =
     (case f (h a) c of (found, c2) \<Rightarrow> if found then (Some a, c2) else find_list f c2 h as)"

definition matching :: "int \<Rightarrow> bool \<Rightarrow> (addr \<Rightarrow> 'd node_t) \<Rightarrow> addr list \<Rightarrow> addr list" where
  "matching b d h as = filter (\<lambda>a. dagger (op (h a)) = d \<and> block_index (op (h a)) = b) as"

text \<open>Whether the search for the key \<open>k\<close> ends at a node holding \<open>k\<close>.\<close>

definition key_found :: "(addr \<Rightarrow> 'd node_t) \<Rightarrow> time_pt \<Rightarrow> shape \<Rightarrow> bool" where
  "key_found h k t = (search_path h k t \<noteq> [] \<and> key (h (last (search_path h k t))) = k)"

text \<open>
  The state after \<open>try_insert_impl\<close> has linked the node \<open>na\<close> with the key \<open>k\<close> below a
  non-empty tree of shape \<open>t\<close>: the nodes of the search path are marked, the last of
  them has \<open>na\<close> as a child and is recorded in \<open>inserted_nodes\<close>.
\<close>

definition ins_state :: "addr \<Rightarrow> time_pt \<Rightarrow> shape \<Rightarrow> 'd impurity_trace \<Rightarrow> 'd impurity_trace" where
  "ins_state na k t s =
     (let path = search_path (heap s) k t; p = last path;
          side = comparator k (key (heap s p))
      in s\<lparr>heap := (heap_map (set path) (\<lambda>nd. nd\<lparr>modified := True\<rparr>) (heap s))
                      (p := (set_child side (Some na) (heap s p))\<lparr>modified := True\<rparr>),
           inserted_nodes := (inserted_nodes s)[nat (index (trial_nodes s)) := (Some p, side)]\<rparr>)"

text \<open>Predicates on the nodes of a tree, for the statements below.\<close>

definition unmodified :: "(addr \<Rightarrow> 'd node_t) \<Rightarrow> shape \<Rightarrow> bool" where
  "unmodified h t = list_all (\<lambda>a. \<not> modified (h a)) (inorder t)"

definition allocated :: "'d impurity_trace \<Rightarrow> addr list \<Rightarrow> bool" where
  "allocated s as = list_all (\<lambda>a. a < next_free s) as"

definition identity_table :: "op_desc list \<Rightarrow> bool" where
  "identity_table tb = list_all (\<lambda>j. linear_index (tb ! j) = int j) [0 ..< length tb]"

definition ops_in_range :: "(addr \<Rightarrow> 'd node_t) \<Rightarrow> op_desc list \<Rightarrow> op_desc list \<Rightarrow> shape \<Rightarrow> bool" where
  "ops_in_range h substitute_c substitute_c_dag t =
     list_all (\<lambda>a. in_range (linear_index (op (h a)))
                      (if dagger (op (h a)) then substitute_c_dag else substitute_c)) (inorder t)"

section \<open>States without a pending transaction, and states with pending insertions\<close>

text \<open>
  \<open>same_data\<close> compares two nodes on everything but the child pointers and the modified
  flag. \<open>clean s t\<close> describes an instance between two transactions: the tree has the
  shape \<open>t\<close> with distinct nodes, none of them marked modified, \<open>tree_size\<close> is the number
  of nodes and agrees with the size of the tree, and the trial pool is reset, with
  detached nodes that are no nodes of the tree. \<open>pending s0 t0 s t k\<close> relates such a state
  \<open>s0\<close> to a state \<open>s\<close> reached from it by \<open>k\<close> trial insertions: \<open>t\<close> is the shape of the
  tree with the trial nodes linked in, and every child pointer that differs from \<open>s0\<close> was
  \<open>nullptr\<close> there and is recorded in \<open>inserted_nodes\<close>. \<open>unlinked\<close> is the effect of the
  loop of \<open>cancel_insert_impl\<close> on one node, \<open>ins_shape\<close> the shape after one more
  insertion.
\<close>

definition same_data :: "'d node_t \<Rightarrow> 'd node_t \<Rightarrow> bool" where
  "same_data x y =
     (key x = key y \<and> op x = op y \<and> cache x = cache y \<and> color x = color y \<and> N x = N y
      \<and> delete_flag x = delete_flag y)"

definition pool_addrs :: "nodes_storage \<Rightarrow> addr list" where
  "pool_addrs p = map the (nodes p)"

definition clean :: "'d impurity_trace \<Rightarrow> shape \<Rightarrow> bool" where
  "clean s t =
     (is_tree (heap s) (root s) t
      \<and> distinct (inorder t @ pool_addrs (trial_nodes s))
      \<and> unmodified (heap s) t
      \<and> tree_size s = int (length (inorder t))
      \<and> rbt_size s = tree_size s
      \<and> index (trial_nodes s) = - 1
      \<and> list_all (\<lambda>n. n \<noteq> None) (nodes (trial_nodes s))
      \<and> length (inserted_nodes s) = length (nodes (trial_nodes s))
      \<and> list_all (\<lambda>a. left (heap s a) = None \<and> right (heap s a) = None) (pool_addrs (trial_nodes s)))"

definition unlinked :: "nat list \<Rightarrow> (node \<times> bool) list \<Rightarrow> addr \<Rightarrow> 'd node_t \<Rightarrow> 'd node_t" where
  "unlinked js ins a nd =
     nd\<lparr>left := (if \<exists>j \<in> set js. ins ! j = (Some a, True) then None else left nd),
        right := (if \<exists>j \<in> set js. ins ! j = (Some a, False) then None else right nd)\<rparr>"

definition pending :: "'d impurity_trace \<Rightarrow> shape \<Rightarrow> 'd impurity_trace \<Rightarrow> shape \<Rightarrow> nat \<Rightarrow> bool" where
  "pending s0 t0 s t k =
     (trial_nodes s = (trial_nodes s0)\<lparr>i := int k - 1\<rparr>
      \<and> k \<le> length (nodes (trial_nodes s0))
      \<and> is_tree (heap s) (root s) t \<and> distinct (inorder t)
      \<and> set (inorder t) = set (inorder t0) \<union> set (take k (pool_addrs (trial_nodes s0)))
      \<and> (\<forall>a sd. get_child sd (heap s a) = get_child sd (heap s0 a)
                 \<or> (get_child sd (heap s0 a) = None \<and> (\<exists>j<k. inserted_nodes s ! j = (Some a, sd))))
      \<and> (\<forall>j<k. \<forall>a sd. inserted_nodes s ! j = (Some a, sd) \<longrightarrow>
                 get_child sd (heap s0 a) = None \<and> a \<in> set (inorder t))
      \<and> (\<forall>a. a \<notin> set (pool_addrs (trial_nodes s0)) \<longrightarrow> same_data (heap s a) (heap s0 a))
      \<and> tree_size s = tree_size s0 + int k
      \<and> (root s = root s0 \<or> root s0 = None)
      \<and> length (inserted_nodes s) = length (inserted_nodes s0)
      \<and> s\<lparr>heap := heap s0, root := root s0, tree_size := tree_size s0,
            trial_nodes := trial_nodes s0, inserted_nodes := inserted_nodes s0\<rparr> = s0)"

fun ins_shape :: "(addr \<Rightarrow> 'd node_t) \<Rightarrow> time_pt \<Rightarrow> addr \<Rightarrow> shape \<Rightarrow> shape" where
  "ins_shape h k na Leaf = Node Leaf na Leaf"
| "ins_shape h k na (Node l a r) =
     (if comparator k (key (h a)) then Node (ins_shape h k na l) a r
      else Node l a (ins_shape h k na r))"



section \<open>Marking of root paths: specification functions\<close>

text \<open>
  The operator the substitution tables give for an operator: \<open>try_replace_impl\<close> reads the
  table of the dagger tag at the linear index.
\<close>

definition new_op_of :: "op_desc list \<Rightarrow> op_desc list \<Rightarrow> op_desc \<Rightarrow> op_desc" where
  "new_op_of sc scd o_old = (if dagger o_old then scd else sc) ! nat (linear_index o_old)"

text \<open>
  The test \<open>op_changed\<close> of \<open>try_replace_impl\<close>: the linear index differs.
\<close>

definition op_changed :: "op_desc list \<Rightarrow> op_desc list \<Rightarrow> op_desc \<Rightarrow> bool" where
  "op_changed sc scd o_old = (linear_index (new_op_of sc scd o_old) \<noteq> linear_index o_old)"









section \<open>Example states\<close>

text \<open>
  Concrete instances: an empty tree, and a tree of three operators at the times \<open>70\<close>,
  \<open>50\<close>, \<open>30\<close> (in order) stored at the addresses \<open>11\<close>, \<open>10\<close>, \<open>12\<close>; the four trial nodes
  are at the addresses \<open>0\<close> to \<open>3\<close>.
\<close>

definition ex_node :: "time_pt \<Rightarrow> op_desc \<Rightarrow> node \<Rightarrow> node \<Rightarrow> int \<Rightarrow> bool \<Rightarrow> nat node_t" where
  "ex_node k o_d l r cnt m =
     \<lparr>key = k, op = o_d, cache = new_cache 1, left = l, right = r,
      color = False, N = cnt, modified = m, delete_flag = False\<rparr>"

definition ex_pool :: "node list \<Rightarrow> nodes_storage" where
  "ex_pool ns = \<lparr>n_blocks = 1, nodes = ns, i = - 1\<rparr>"

definition ex_op :: "bool \<Rightarrow> int \<Rightarrow> op_desc" where
  "ex_op d l = \<lparr>block_index = 0, dagger = d, linear_index = l\<rparr>"

definition ex_state :: "(addr \<Rightarrow> nat node_t) \<Rightarrow> node \<Rightarrow> int \<Rightarrow> nat impurity_trace" where
  "ex_state h r sz =
     \<lparr>use_norm_as_weight = False, measure_density_matrix = False,
      density_matrix = [], atomic_rho = [], atomic_z = 0, atomic_norm = 0,
      heap = h, next_free = 13, root = r, tree_size = sz,
      trial_nodes = ex_pool [Some 0, Some 1, Some 2, Some 3],
      inserted_nodes = [(None, False), (None, False), (None, False), (None, False)],
      removed_nodes = [], removed_keys = [],
      backup_nodes = ex_pool []\<rparr>"

definition ex_empty :: "nat impurity_trace" where
  "ex_empty = ex_state (\<lambda>_. ex_node 0 default_op None None 1 True) None 0"

definition ex_heap :: "addr \<Rightarrow> nat node_t" where
  "ex_heap = (\<lambda>_. ex_node 0 default_op None None 1 True)
     (10 := ex_node 50 (ex_op False 0) (Some 11) (Some 12) 3 False,
      11 := ex_node 70 (ex_op True 0) None None 1 False,
      12 := ex_node 30 (ex_op True 1) None None 1 False)"

definition ex_tree :: "nat impurity_trace" where
  "ex_tree = ex_state ex_heap (Some 10) 3"

definition ex_shape :: shape where
  "ex_shape = Node (Node Leaf 11 Leaf) 10 (Node Leaf 12 Leaf)"

lemmas ex_defs = ex_node_def ex_pool_def ex_op_def ex_state_def ex_empty_def ex_heap_def ex_tree_def ex_shape_def
  default_op_def comparator_def

definition ex_inserts :: "(time_pt \<times> op_desc) list" where
  "ex_inserts = [(10, default_op), (20, default_op), (30, default_op), (40, default_op)]"

definition ex_four :: "nat impurity_trace" where
  "ex_four = (case try_insert_seq ex_inserts ex_empty of Some (Inr s) \<Rightarrow> s | _ \<Rightarrow> ex_empty)"

definition ex_c :: "op_desc list" where
  "ex_c = [ex_op False 0, ex_op False 1]"

definition ex_c_dag :: "op_desc list" where
  "ex_c_dag = [ex_op True 0, ex_op True 1]"

definition ex_c_swap :: "op_desc list" where
  "ex_c_swap = [ex_op False 1, ex_op False 0]"


definition ex_swapped :: "nat impurity_trace" where
  "ex_swapped = (case try_replace ex_c_swap ex_c_dag ex_tree of Some (Inr s) \<Rightarrow> s | _ \<Rightarrow> ex_tree)"

definition ex_two :: "nat impurity_trace" where
  "ex_two = (case try_insert_seq [(60, default_op), (20, default_op)] ex_tree of
               Some (Inr s) \<Rightarrow> s | _ \<Rightarrow> ex_tree)"

definition ex_deleted :: "nat impurity_trace" where
  "ex_deleted = (case try_delete 0 0 True ex_tree of Some (Inr (k, s)) \<Rightarrow> s | _ \<Rightarrow> ex_tree)"

definition ex_deleted_inserted :: "nat impurity_trace" where
  "ex_deleted_inserted = (case try_insert_seq [(60, default_op)] ex_deleted of
               Some (Inr s) \<Rightarrow> s | _ \<Rightarrow> ex_deleted)"

definition ex_deleted_cancelled :: "nat impurity_trace" where
  "ex_deleted_cancelled = (case cancel_insert ex_deleted_inserted of
               Some (Inr s) \<Rightarrow> s | _ \<Rightarrow> ex_deleted_inserted)"

definition ex_one :: "nat impurity_trace" where
  "ex_one = ex_state ((\<lambda>_. ex_node 0 default_op None None 1 True)
      (10 := ex_node 50 (ex_op False 0) None None 1 False)) (Some 10) 1"

definition ex_one_failed :: "nat impurity_trace" where
  "ex_one_failed = (case try_insert 50 default_op ex_one of Some (Inl (e, s)) \<Rightarrow> s | _ \<Rightarrow> ex_one)"

definition ex_one_cancelled :: "nat impurity_trace" where
  "ex_one_cancelled = (case cancel_insert ex_one_failed of Some (Inr s) \<Rightarrow> s | _ \<Rightarrow> ex_one_failed)"

definition ex_first :: "nat impurity_trace" where
  "ex_first = (case try_insert 50 default_op ex_empty of Some (Inr s) \<Rightarrow> s | _ \<Rightarrow> ex_empty)"

definition ex_first_failed :: "nat impurity_trace" where
  "ex_first_failed = (case try_insert 50 default_op ex_first of Some (Inl (e, s)) \<Rightarrow> s | _ \<Rightarrow> ex_first)"

section \<open>Traversals of a well-formed tree\<close>

lemma is_tree_frame:
  "is_tree h p t \<Longrightarrow> (\<And>a. a \<in> set (inorder t) \<Longrightarrow> left (h' a) = left (h a) \<and> right (h' a) = right (h a)) \<Longrightarrow> is_tree h' p t"
  by (induction t arbitrary: p) auto

lemma find_list_append:
  "find_list f c h (xs @ ys) =
     (case find_list f c h xs of (Some b, c1) \<Rightarrow> (Some b, c1) | (None, c1) \<Rightarrow> find_list f c1 h ys)"
  by (induction xs arbitrary: c) (auto split: prod.splits)

lemma find_if_impl_tree:
  "is_tree h p t \<Longrightarrow> find_if_impl p f c h = Some (find_list f c h (inorder t))"
proof (induction t arbitrary: p c)
  case Leaf
  then show ?case by (subst find_if_impl.simps) simp
next
  case (Node l a r)
  from Node.prems have p: "p = Some a" and tl: "is_tree h (left (h a)) l" and tr: "is_tree h (right (h a)) r"
    by auto
  show ?case
    apply (subst find_if_impl.simps)
    apply (simp add: p Node.IH(1)[OF tl] Node.IH(2)[OF tr] find_list_append split: prod.splits option.splits)
    done
qed

lemma find_list_delete_pred:
  "0 \<le> c \<Longrightarrow> c \<le> n \<Longrightarrow>
   find_list (delete_pred n b d) c h as =
     (if nat (n - c) < length (matching b d h as)
      then (Some (matching b d h as ! nat (n - c)), n + 1)
      else (None, c + int (length (matching b d h as))))"
proof (induction as arbitrary: c)
  case Nil
  then show ?case by (simp add: matching_def)
next
  case (Cons a as)
  define m where "m = (dagger (op (h a)) = d \<and> block_index (op (h a)) = b)"
  have dp: "\<And>c. delete_pred n b d (h a) c = ((if m then c + 1 else c) = n + 1, (if m then c + 1 else c))"
    by (simp add: delete_pred_def m_def Let_def)
  have mt: "matching b d h (a # as) = (if m then a # matching b d h as else matching b d h as)"
    by (simp add: matching_def m_def)
  show ?case
  proof (cases m)
    case True
    show ?thesis
    proof (cases "c = n")
      case True
      with \<open>m\<close> show ?thesis
        by (simp add: dp mt)
    next
      case False
      with Cons.prems have c1: "0 \<le> c + 1" "c + 1 \<le> n" by auto
      have "nat (n - c) = Suc (nat (n - (c + 1)))" using c1 by simp
      with Cons.IH[OF c1] True False show ?thesis
        by (simp add: dp mt)
    qed
  next
    case False
    with Cons.IH[OF Cons.prems] Cons.prems show ?thesis
      by (simp add: dp mt)
  qed
qed

lemma search_path_cong:
  "(\<And>a. a \<in> set (inorder t) \<Longrightarrow> key (h' a) = key (h a)) \<Longrightarrow> search_path h' k t = search_path h k t"
  by (induction t) auto

lemma search_path_subset: "set (search_path h k t) \<subseteq> set (inorder t)"
  by (induction t) auto

lemma heap_node_update [simp]: "heap (node_update a f s) = (heap s)(a := f (heap s a))"
  by (simp add: node_update_def)

lemma set_modified_impl_tree:
  "is_tree (heap s) p t \<Longrightarrow>
   set_modified_impl p k s =
     Some (s\<lparr>heap := heap_map (set (search_path (heap s) k t)) (\<lambda>nd. nd\<lparr>modified := True\<rparr>) (heap s)\<rparr>)"
proof (induction t arbitrary: p s)
  case Leaf
  then show ?case
    by (subst set_modified_impl.simps) (simp add: heap_map_def)
next
  case (Node l a r)
  from Node.prems have p: "p = Some a" and tl: "is_tree (heap s) (left (heap s a)) l"
    and tr: "is_tree (heap s) (right (heap s a)) r"
    by auto
  define s1 where "s1 = node_update a (\<lambda>nd. nd\<lparr>modified := True\<rparr>) s"
  have tl1: "is_tree (heap s1) (left (heap s a)) l"
    by (rule is_tree_frame[OF tl]) (simp add: s1_def)
  have tr1: "is_tree (heap s1) (right (heap s a)) r"
    by (rule is_tree_frame[OF tr]) (simp add: s1_def)
  have sp: "search_path (heap s1) k l = search_path (heap s) k l" "search_path (heap s1) k r = search_path (heap s) k r"
    by (rule search_path_cong; simp add: s1_def)+
  have hm: "\<And>A. heap_map A (\<lambda>nd. nd\<lparr>modified := True\<rparr>) (heap s1) = heap_map (insert a A) (\<lambda>nd. nd\<lparr>modified := True\<rparr>) (heap s)"
    by (auto simp: heap_map_def s1_def fun_eq_iff)
  have s1h: "\<And>H. s1\<lparr>heap := H\<rparr> = s\<lparr>heap := H\<rparr>"
    by (simp add: s1_def node_update_def)
  show ?case
    apply (subst set_modified_impl.simps)
    apply (simp add: p Let_def s1_def[symmetric] Node.IH(1)[OF tl1] Node.IH(2)[OF tr1] sp hm s1h)
    apply (simp add: s1_def node_update_def heap_map_def fun_eq_iff)
    done
qed

lemma list_all_set: "list_all P xs \<Longrightarrow> x \<in> set xs \<Longrightarrow> P x"
  by (simp add: list_all_iff)

lemma search_path_root_path:
  "bst h t \<Longrightarrow> distinct (inorder t) \<Longrightarrow> x \<in> set (inorder t) \<Longrightarrow>
   search_path h (key (h x)) t = root_path x t"
proof (induction t)
  case Leaf
  then show ?case by simp
next
  case (Node l a r)
  show ?case
  proof (cases "x = a")
    case True
    then show ?thesis by simp
  next
    case False
    show ?thesis
    proof (cases "x \<in> set (inorder l)")
      case True
      with Node.prems have c: "comparator (key (h x)) (key (h a))"
        by (auto dest: list_all_set)
      from Node.prems True have "search_path h (key (h x)) l = root_path x l"
        by (intro Node.IH) auto
      with c True False show ?thesis by (auto simp: comparator_def)
    next
      case nl: False
      with False Node.prems have xr: "x \<in> set (inorder r)" by auto
      with Node.prems have c: "comparator (key (h a)) (key (h x))"
        by (auto dest: list_all_set)
      from Node.prems xr have "search_path h (key (h x)) r = root_path x r"
        by (intro Node.IH) auto
      with c xr nl False show ?thesis by (auto simp: comparator_def)
    qed
  qed
qed

lemma root_path_last: "x \<in> set (inorder t) \<Longrightarrow> root_path x t \<noteq> [] \<and> last (root_path x t) = x"
  by (induction t) auto

lemma root_path_subset: "y \<in> set (root_path x t) \<Longrightarrow> y \<in> set (inorder t)"
proof (induction t)
  case Leaf
  then show ?case by simp
next
  case (Node l a r)
  then show ?case
    by (cases "x = a"; cases "x \<in> set (inorder l)"; cases "x \<in> set (inorder r)") fastforce+
qed

lemma matching_nth_in: "j < length (matching b d h as) \<Longrightarrow> matching b d h as ! j \<in> set as"
  using nth_mem[of j "matching b d h as"] by (auto simp: matching_def)

lemma try_delete_state:
  assumes t: "is_tree (heap s) (root s) t" and d: "distinct (inorder t)" and b: "bst (heap s) t"
    and n: "0 \<le> n" "nat n < length (matching bi dg (heap s) (inorder t))"
    and x: "x = matching bi dg (heap s) (inorder t) ! nat n"
  shows "try_delete n bi dg s =
     Some (Inr (key (heap s x),
       s\<lparr>heap := (heap_map (set (root_path x t)) (\<lambda>nd. nd\<lparr>modified := True\<rparr>) (heap s))
                   (x := (heap s x)\<lparr>modified := True, delete_flag := True\<rparr>),
         tree_size := tree_size s - 1,
         removed_nodes := removed_nodes s @ [Some x],
         removed_keys := removed_keys s @ [key (heap s x)]\<rparr>))"
proof -
  have xin: "x \<in> set (inorder t)" using n x by (simp add: matching_nth_in)
  have f: "find_if s (delete_pred n bi dg) = Some (Some x, n + 1)"
    using n x by (simp add: find_if_def find_if_impl_tree[OF t] find_list_delete_pred)
  let ?s2 = "s\<lparr>removed_nodes := removed_nodes s @ [Some x], removed_keys := removed_keys s @ [key (heap s x)]\<rparr>"
  have t2: "is_tree (heap ?s2) (root ?s2) t" using t by simp
  have sm: "set_modified_from_root_to (key (heap s x)) ?s2 =
     Some (?s2\<lparr>heap := heap_map (set (root_path x t)) (\<lambda>nd. nd\<lparr>modified := True\<rparr>) (heap s)\<rparr>)"
    using set_modified_impl_tree[OF t2, of "key (heap s x)"] search_path_root_path[OF b d xin]
    by (simp add: set_modified_from_root_to_def)
  have xp: "x \<in> set (root_path x t)" using root_path_last[OF xin] last_in_set by metis
  show ?thesis
    using xp
    by (simp add: try_delete_def f Let_def sm)
       (simp add: node_update_def heap_map_def fun_eq_iff)
qed

lemma try_delete_null:
  assumes t: "is_tree (heap s) (root s) t"
    and n: "0 \<le> n" "length (matching bi dg (heap s) (inorder t)) \<le> nat n"
  shows "try_delete n bi dg s = Some (Inl (NullDeref, s\<lparr>removed_nodes := removed_nodes s @ [None]\<rparr>))"
proof -
  have f: "find_if s (delete_pred n bi dg) = Some (None, int (length (matching bi dg (heap s) (inorder t))))"
    using n by (simp add: find_if_def find_if_impl_tree[OF t] find_list_delete_pred)
  show ?thesis by (simp add: try_delete_def f)
qed

section \<open>The descent of \<open>try_insert_impl\<close>\<close>

lemma key_found_Leaf [simp]: "\<not> key_found h k Leaf"
  by (simp add: key_found_def)

lemma key_found_Node:
  "key_found h k (Node l a r) =
     (k = key (h a) \<or> (if comparator k (key (h a)) then key_found h k l else key_found h k r))"
  by (auto simp: key_found_def)

lemma try_insert_impl_Some:
  "key (heap s a) \<noteq> key (heap s na) \<Longrightarrow>
   try_insert_impl (Some a) (Some na) s =
     Option.bind (try_insert_impl (get_child (comparator (key (heap s na)) (key (heap s a))) (heap s a)) (Some na) s)
       (\<lambda>r. case r of Inl e \<Rightarrow> Some (Inl e)
          | Inr (c, s1) \<Rightarrow> link_and_mark a (comparator (key (heap s na)) (key (heap s a))) c s1)"
  by (subst try_insert_impl.simps) (simp add: Let_def)

lemma is_tree_child:
  "is_tree h (Some a) (Node l a r) \<Longrightarrow> is_tree h (get_child c (h a)) (if c then l else r)"
  by (simp add: get_child_def)

lemma try_insert_impl_found:
  "is_tree (heap s) h t \<Longrightarrow> key_found (heap s) k t \<Longrightarrow> key (heap s na) = k \<Longrightarrow>
   try_insert_impl h (Some na) s = Some (Inl (RbtInsertError, s))"
proof (induction t arbitrary: h)
  case Leaf
  then show ?case by simp
next
  case (Node l a r)
  from Node.prems have h: "h = Some a" by auto
  show ?case
  proof (cases "k = key (heap s a)")
    case True
    then show ?thesis
      by (subst try_insert_impl.simps) (simp add: h Node.prems(3))
  next
    case False
    define c where "c = comparator k (key (heap s a))"
    have tsub: "is_tree (heap s) (get_child c (heap s a)) (if c then l else r)"
      using Node.prems(1) unfolding h by (rule is_tree_child)
    from Node.prems False have kf: "key_found (heap s) k (if c then l else r)"
      by (simp add: key_found_Node c_def)
    have "try_insert_impl (get_child c (heap s a)) (Some na) s = Some (Inl (RbtInsertError, s))"
      using Node.IH(1)[OF _ _ Node.prems(3)] Node.IH(2)[OF _ _ Node.prems(3)] tsub kf
      by (cases c) simp_all
    then show ?thesis
      using False by (simp add: h try_insert_impl_Some Node.prems(3) c_def)
  qed
qed

lemma try_insert_impl_None [simp]: "try_insert_impl None n s = Some (Inr (n, s))"
  by (subst try_insert_impl.simps) simp

lemma search_path_nonempty: "t \<noteq> Leaf \<Longrightarrow> search_path h k t \<noteq> []"
  by (cases t) auto

lemma node_update_same: "f (heap s a) = heap s a \<Longrightarrow> node_update a f s = s"
  by (simp add: node_update_def)

lemma ins_state_fields [simp]:
  "trial_nodes (ins_state na k t s) = trial_nodes s"
  "length (inserted_nodes (ins_state na k t s)) = length (inserted_nodes s)"
  "root (ins_state na k t s) = root s"
  "tree_size (ins_state na k t s) = tree_size s"
  by (simp_all add: ins_state_def Let_def)

lemma ins_state_slot:
  "nat (index (trial_nodes s)) < length (inserted_nodes s) \<Longrightarrow>
   fst (inserted_nodes (ins_state na k t s) ! nat (index (trial_nodes s))) \<noteq> None"
  by (simp add: ins_state_def Let_def)

lemma ins_state_frame:
  "a \<notin> set (search_path (heap s) k t) \<Longrightarrow> t \<noteq> Leaf \<Longrightarrow> heap (ins_state na k t s) a = heap s a"
  using last_in_set[OF search_path_nonempty, of t "heap s" k]
  by (auto simp add: ins_state_def Let_def heap_map_def)

lemma ins_state_single:
  assumes "k \<noteq> key (heap s a)" "(if comparator k (key (heap s a)) then l else r) = Leaf"
  shows "ins_state na k (Node l a r) s =
     s\<lparr>heap := (heap s)(a := (set_child (comparator k (key (heap s a))) (Some na) (heap s a))\<lparr>modified := True\<rparr>),
       inserted_nodes := (inserted_nodes s)[nat (index (trial_nodes s)) := (Some a, comparator k (key (heap s a)))]\<rparr>"
proof -
  have sp: "search_path (heap s) k (Node l a r) = [a]" using assms by (auto split: if_splits)
  show ?thesis
    unfolding ins_state_def sp by (simp add: Let_def heap_map_def fun_eq_iff)
qed

lemma ins_state_step:
  assumes "k \<noteq> key (heap s a)" and sub: "sub = (if comparator k (key (heap s a)) then l else r)"
    and "sub \<noteq> Leaf" and "a \<notin> set (inorder sub)"
  shows "ins_state na k (Node l a r) s = node_update a (\<lambda>nd. nd\<lparr>modified := True\<rparr>) (ins_state na k sub s)"
proof -
  have sp: "search_path (heap s) k (Node l a r) = a # search_path (heap s) k sub" using assms by auto
  have ne: "search_path (heap s) k sub \<noteq> []" by (rule search_path_nonempty) fact
  have pl: "last (search_path (heap s) k sub) \<in> set (search_path (heap s) k sub)"
    using ne by simp
  have anp: "a \<notin> set (search_path (heap s) k sub)" using assms(4) search_path_subset by blast
  with pl have pa: "last (search_path (heap s) k sub) \<noteq> a" by auto
  have "heap (ins_state na k (Node l a r) s) = heap (node_update a (\<lambda>nd. nd\<lparr>modified := True\<rparr>) (ins_state na k sub s))"
    unfolding ins_state_def sp using ne pa anp
    by (auto simp add: Let_def heap_map_def fun_eq_iff)
  moreover have "inserted_nodes (ins_state na k (Node l a r) s) = inserted_nodes (node_update a (\<lambda>nd. nd\<lparr>modified := True\<rparr>) (ins_state na k sub s))"
    unfolding ins_state_def sp using ne
    by (simp add: Let_def node_update_def)
  ultimately show ?thesis
    by (simp add: ins_state_def node_update_def Let_def)
qed

lemma link_and_mark_leaf:
  assumes "in_range (index (trial_nodes s)) (inserted_nodes s)"
    "fst (inserted_nodes s ! nat (index (trial_nodes s))) = None"
  shows "link_and_mark a c (Some na) s =
     Some (Inr (Some a,
       s\<lparr>heap := (heap s)(a := (set_child c (Some na) (heap s a))\<lparr>modified := True\<rparr>),
         inserted_nodes := (inserted_nodes s)[nat (index (trial_nodes s)) := (Some a, c)]\<rparr>))"
  using assms
  by (simp add: link_and_mark_def Let_def node_update_def)

lemma link_and_mark_inner:
  assumes "in_range (index (trial_nodes s)) (inserted_nodes s)"
    "fst (inserted_nodes s ! nat (index (trial_nodes s))) \<noteq> None"
    "get_child c (heap s a) = ch"
  shows "link_and_mark a c ch s = Some (Inr (Some a, node_update a (\<lambda>nd. nd\<lparr>modified := True\<rparr>) s))"
proof -
  have "node_update a (set_child c ch) s = s"
    by (rule node_update_same) (use assms(3) in \<open>auto simp: set_child_def get_child_def\<close>)
  then show ?thesis using assms(1,2)
    by (auto simp: link_and_mark_def Let_def)
qed

lemma try_insert_impl_ok:
  "is_tree (heap s) h t \<Longrightarrow> t \<noteq> Leaf \<Longrightarrow> distinct (inorder t) \<Longrightarrow> \<not> key_found (heap s) k t \<Longrightarrow>
   key (heap s na) = k \<Longrightarrow> na \<notin> set (inorder t) \<Longrightarrow>
   in_range (index (trial_nodes s)) (inserted_nodes s) \<Longrightarrow>
   fst (inserted_nodes s ! nat (index (trial_nodes s))) = None \<Longrightarrow>
   try_insert_impl h (Some na) s = Some (Inr (h, ins_state na k t s))"
proof (induction t arbitrary: h)
  case Leaf
  then show ?case by simp
next
  case (Node l a r)
  from Node.prems have h: "h = Some a" by auto
  from Node.prems have ka: "k \<noteq> key (heap s a)" by (simp add: key_found_Node)
  let ?j = "nat (index (trial_nodes s))"
  from Node.prems have jr: "?j < length (inserted_nodes s)" by (auto simp: in_range_def)
  define c where "c = comparator k (key (heap s a))"
  define sub where "sub = (if c then l else r)"
  have tsub: "is_tree (heap s) (get_child c (heap s a)) sub"
    using Node.prems(1) unfolding h sub_def by (rule is_tree_child)
  from Node.prems have dsub: "distinct (inorder sub)" "na \<notin> set (inorder sub)" "a \<notin> set (inorder sub)"
    by (auto simp: sub_def)
  have unf: "try_insert_impl (Some a) (Some na) s =
     Option.bind (try_insert_impl (get_child c (heap s a)) (Some na) s)
       (\<lambda>r. case r of Inl e \<Rightarrow> Some (Inl e) | Inr (ch, s1) \<Rightarrow> link_and_mark a c ch s1)"
    using ka unfolding c_def Node.prems(5)[symmetric] by (rule try_insert_impl_Some[OF not_sym])
  show ?case
  proof (cases "sub = Leaf")
    case True
    with tsub have "get_child c (heap s a) = None" by simp
    then show ?thesis
      using True
      by (simp add: unf h link_and_mark_leaf[OF Node.prems(7,8)] ins_state_single[OF ka] c_def sub_def)
  next
    case False
    from Node.prems(4) ka have nf: "\<not> key_found (heap s) k sub"
      by (cases "comparator k (key (heap s a))") (simp_all add: key_found_Node sub_def c_def)
    have ih: "try_insert_impl (get_child c (heap s a)) (Some na) s = Some (Inr (get_child c (heap s a), ins_state na k sub s))"
    proof (cases c)
      case True
      then have "sub = l" by (simp add: sub_def)
      with Node.IH(1)[of "get_child c (heap s a)"] tsub False dsub nf Node.prems(5,7,8)
      show ?thesis by simp
    next
      case c: False
      then have "sub = r" by (simp add: sub_def)
      with Node.IH(2)[of "get_child c (heap s a)"] tsub False dsub nf Node.prems(5,7,8)
      show ?thesis by simp
    qed
    have anp: "a \<notin> set (search_path (heap s) k sub)" using dsub search_path_subset by blast
    have ha: "heap (ins_state na k sub s) a = heap s a"
      by (rule ins_state_frame[OF anp False])
    have lm: "link_and_mark a c (get_child c (heap s a)) (ins_state na k sub s) =
        Some (Inr (Some a, node_update a (\<lambda>nd. nd\<lparr>modified := True\<rparr>) (ins_state na k sub s)))"
      using Node.prems(7) ins_state_slot[OF jr, of na k sub]
      by (intro link_and_mark_inner) (simp_all add: ha in_range_def)
    show ?thesis
      by (simp add: unf ih lm h ins_state_step[OF ka sub_def[unfolded c_def] False dsub(3)])
  qed
qed

section \<open>Further facts on searches\<close>

lemma find_list_result_in: "find_list f c h as = (Some b, c') \<Longrightarrow> b \<in> set as"
  by (induction as arbitrary: c) (auto split: prod.splits if_splits)

lemma find_list_prefix:
  "distinct as \<Longrightarrow> find_list f c h as = (Some x, c') \<Longrightarrow>
   find_list f c h (takeWhile (\<lambda>a. a \<noteq> x) as @ [x]) = (Some x, c')"
proof (induction as arbitrary: c)
  case Nil
  then show ?case by simp
next
  case (Cons a as)
  obtain found c2 where f: "f (h a) c = (found, c2)" by (cases "f (h a) c")
  show ?case
  proof (cases found)
    case True
    with Cons.prems f show ?thesis by simp
  next
    case False
    with Cons.prems f have r: "find_list f c2 h as = (Some x, c')" by simp
    then have "x \<in> set as" by (rule find_list_result_in)
    with Cons.prems have "a \<noteq> x" by auto
    with Cons.IH[OF _ r] Cons.prems f False show ?thesis by simp
  qed
qed

lemma bst_cong:
  "(\<And>a. a \<in> set (inorder t) \<Longrightarrow> key (h' a) = key (h a)) \<Longrightarrow> bst h' t = bst h t"
  by (induction t) (auto simp: list_all_iff)

lemma key_found_cong:
  assumes "\<And>a. a \<in> set (inorder t) \<Longrightarrow> key (h' a) = key (h a)"
  shows "key_found h' k t = key_found h k t"
proof -
  have sp: "search_path h' k t = search_path h k t" using assms by (rule search_path_cong)
  show ?thesis
  proof (cases "search_path h k t = []")
    case True
    then show ?thesis by (simp add: key_found_def sp)
  next
    case False
    then have "last (search_path h k t) \<in> set (inorder t)"
      using search_path_subset last_in_set by blast
    then show ?thesis using assms by (simp add: key_found_def sp)
  qed
qed

lemma bst_key_found:
  "bst h t \<Longrightarrow> x \<in> set (inorder t) \<Longrightarrow> key (h x) = k \<Longrightarrow> key_found h k t"
proof (induction t)
  case Leaf
  then show ?case by simp
next
  case (Node l a r)
  show ?case
  proof (cases "k = key (h a)")
    case True
    then show ?thesis by (simp add: key_found_Node)
  next
    case False
    with Node.prems have xa: "x \<noteq> a" by auto
    show ?thesis
    proof (cases "x \<in> set (inorder l)")
      case True
      with Node.prems have "comparator k (key (h a))" by (auto dest: list_all_set)
      with Node.IH(1) Node.prems True show ?thesis by (simp add: key_found_Node)
    next
      case nl: False
      with xa Node.prems have xr: "x \<in> set (inorder r)" by auto
      with Node.prems have "comparator (key (h a)) k" by (auto dest: list_all_set)
      then have "\<not> comparator k (key (h a))" by (simp add: comparator_def)
      with Node.IH(2) Node.prems xr show ?thesis by (simp add: key_found_Node)
    qed
  qed
qed

section \<open>Replacement with tables that change nothing\<close>

lemma heap_map_id: "(\<And>a. a \<in> A \<Longrightarrow> f (h a) = h a) \<Longrightarrow> heap_map A f h = h"
  by (auto simp: heap_map_def fun_eq_iff)

lemma heap_map_union:
  "heap_map B f (heap_map A f h) = heap_map (A \<union> B) f h" if "\<And>nd. f (f nd) = f nd"
  using that by (auto simp: heap_map_def fun_eq_iff)

lemma clear_modified_impl_tree:
  "is_tree (heap s) p t \<Longrightarrow>
   clear_modified_impl p s =
     Some (s\<lparr>heap := heap_map (set (inorder t)) (\<lambda>nd. nd\<lparr>modified := False\<rparr>) (heap s)\<rparr>)"
proof (induction t arbitrary: p s)
  case Leaf
  then show ?case
    by (subst clear_modified_impl.simps) (simp add: heap_map_def)
next
  case (Node l a r)
  from Node.prems have p: "p = Some a" and tl: "is_tree (heap s) (left (heap s a)) l"
    and tr: "is_tree (heap s) (right (heap s a)) r"
    by auto
  let ?f = "\<lambda>nd::'a node_t. nd\<lparr>modified := False\<rparr>"
  let ?s1 = "s\<lparr>heap := heap_map (set (inorder l)) ?f (heap s)\<rparr>"
  have l1: "clear_modified_impl (left (heap s a)) s = Some ?s1"
    by (rule Node.IH(1)[OF tl])
  have ra: "right (heap_map (set (inorder l)) ?f (heap s) a) = right (heap s a)" by (simp add: heap_map_def)
  have tr1: "is_tree (heap ?s1) (right (heap s a)) r"
    by (rule is_tree_frame[OF tr]) (simp add: heap_map_def)
  have r1: "clear_modified_impl (right (heap s a)) ?s1 =
      Some (?s1\<lparr>heap := heap_map (set (inorder r)) ?f (heap ?s1)\<rparr>)"
    by (rule Node.IH(2)[OF tr1])
  show ?case
    apply (subst clear_modified_impl.simps)
    apply (simp add: p l1 ra r1 node_update_def)
    apply (auto simp: heap_map_def fun_eq_iff)
    done
qed

lemma clear_modified_unmodified:
  assumes "is_tree (heap s) (root s) t" "unmodified (heap s) t"
  shows "clear_modified s = Some s"
proof -
  have "heap_map (set (inorder t)) (\<lambda>nd. nd\<lparr>modified := False\<rparr>) (heap s) = heap s"
    using assms(2) by (intro heap_map_id) (auto simp: unmodified_def list_all_iff)
  then show ?thesis
    by (simp add: clear_modified_def clear_modified_impl_tree[OF assms(1)])
qed

lemma update_cache_unmodified:
  assumes "is_tree (heap s) (root s) t" "unmodified (heap s) t"
  shows "update_cache rc s = Some s"
proof (cases t)
  case Leaf
  with assms show ?thesis
    by (simp add: update_cache_def) (subst update_cache_impl.simps, simp)
next
  case (Node l a r)
  with assms have "root s = Some a" "\<not> modified (heap s a)"
    by (auto simp: unmodified_def)
  then show ?thesis
    by (simp add: update_cache_def) (subst update_cache_impl.simps, simp)
qed

lemma identity_table_nth:
  "identity_table tb \<Longrightarrow> in_range j tb \<Longrightarrow> linear_index (tb ! nat j) = j"
  by (auto simp: identity_table_def in_range_def list_all_iff)

lemma replace_node_identity:
  assumes "identity_table sc" "identity_table scd"
    and "in_range (linear_index (op (heap s a))) (if dagger (op (heap s a)) then scd else sc)"
  shows "replace_node a (left (heap s a)) (right (heap s a)) sc scd s = Some (Inr (Some a, s))"
  using assms identity_table_nth[of sc "linear_index (op (heap s a))"]
    identity_table_nth[of scd "linear_index (op (heap s a))"]
  by (auto simp: replace_node_def Let_def)

lemma try_replace_impl_identity:
  assumes "identity_table sc" "identity_table scd"
  shows "is_tree (heap s) p t \<Longrightarrow> t \<noteq> Leaf \<Longrightarrow> ops_in_range (heap s) sc scd t \<Longrightarrow>
     try_replace_impl p sc scd s = Some (Inr (p, s))"
proof (induction t arbitrary: p)
  case Leaf
  then show ?case by simp
next
  case (Node l a r)
  from Node.prems have p: "p = Some a" and tl: "is_tree (heap s) (left (heap s a)) l"
    and tr: "is_tree (heap s) (right (heap s a)) r"
    by auto
  from Node.prems(3) have ol: "ops_in_range (heap s) sc scd l" and orr: "ops_in_range (heap s) sc scd r"
    and oa: "in_range (linear_index (op (heap s a))) (if dagger (op (heap s a)) then scd else sc)"
    by (auto simp: ops_in_range_def)
  have L: "(case left (heap s a) of None \<Rightarrow> Some (Inr (None, s))
            | Some l' \<Rightarrow> try_replace_impl (Some l') sc scd s) = Some (Inr (left (heap s a), s))"
  proof (cases l)
    case Leaf
    with tl show ?thesis by simp
  next
    case (Node l1 b l2)
    with tl have "left (heap s a) = Some b" by simp
    with Node.IH(1)[OF tl _ ol] Node show ?thesis by simp
  qed
  have R: "(case right (heap s a) of None \<Rightarrow> Some (Inr (None, s))
            | Some r' \<Rightarrow> try_replace_impl (Some r') sc scd s) = Some (Inr (right (heap s a), s))"
  proof (cases r)
    case Leaf
    with tr show ?thesis by simp
  next
    case (Node r1 b r2)
    with tr have "right (heap s a) = Some b" by simp
    with Node.IH(2)[OF tr _ orr] Node show ?thesis by simp
  qed
  show ?case
    apply (subst try_replace_impl.simps)
    apply (simp add: p L R replace_node_identity[OF assms oa])
    done
qed

lemma push_new_nodes_frame:
  "push_new_nodes k p s = (p', s') \<Longrightarrow>
     s' = s\<lparr>heap := heap s', next_free := next_free s'\<rparr>
     \<and> (\<forall>a < next_free s. heap s' a = heap s a) \<and> next_free s \<le> next_free s'
     \<and> i p' = i p \<and> take (length (nodes p)) (nodes p') = nodes p"
proof (induction k arbitrary: p s)
  case 0
  then show ?case by simp
next
  case (Suc k)
  let ?s1 = "snd (make_new_node (n_blocks p) s)"
  let ?p1 = "p\<lparr>nodes := nodes p @ [fst (make_new_node (n_blocks p) s)]\<rparr>"
  from Suc.prems have "push_new_nodes k ?p1 ?s1 = (p', s')"
    by (simp split: prod.splits)
  note ih = Suc.IH[OF this]
  have nf: "next_free ?s1 = Suc (next_free s)" and h1: "\<And>a. a < next_free s \<Longrightarrow> heap ?s1 a = heap s a"
    and s1: "?s1 = s\<lparr>heap := heap ?s1, next_free := next_free ?s1\<rparr>"
    by (simp_all add: make_new_node_def)
  have "s' = ?s1\<lparr>heap := heap s', next_free := next_free s'\<rparr>" using ih by simp
  also have "\<dots> = s\<lparr>heap := heap s', next_free := next_free s'\<rparr>"
    by (subst s1) simp
  finally have A: "s' = s\<lparr>heap := heap s', next_free := next_free s'\<rparr>" .
  have B: "\<forall>a < next_free s. heap s' a = heap s a" using ih h1 nf by auto
  have C: "next_free s \<le> next_free s'" using ih nf by auto
  have D: "i p' = i p" using ih by simp
  have "take (length (nodes p)) (nodes p') = take (length (nodes p)) (take (length (nodes ?p1)) (nodes p'))"
    by (simp add: min_def)
  also have "\<dots> = nodes p" using ih by simp
  finally have E: "take (length (nodes p)) (nodes p') = nodes p" .
  from A B C D E show ?case by blast
qed

lemma reserve_frame:
  "reserve sz p s = (p', s') \<Longrightarrow>
     s' = s\<lparr>heap := heap s', next_free := next_free s'\<rparr>
     \<and> (\<forall>a < next_free s. heap s' a = heap s a) \<and> next_free s \<le> next_free s'
     \<and> i p' = i p \<and> take (length (nodes p)) (nodes p') = nodes p"
  using push_new_nodes_frame[of "nat (sz - int (length (nodes p)))" p s p' s']
  by (auto simp: reserve_def split: if_splits)

lemma reset_index_reset: "is_index_reset p \<Longrightarrow> snd (reset_index p) = p"
  by (simp add: is_index_reset_def reset_index_def)

lemma confirm_replace_clean:
  assumes "is_tree (heap s) (root s) t" "unmodified (heap s) t" "is_index_reset (backup_nodes s)"
  shows "confirm_replace rc s = Some (Inr s)"
  using assms
  by (simp add: confirm_replace_def reset_index_reset update_cache_unmodified[OF assms(1,2)]
      clear_modified_unmodified[OF assms(1,2)] check_cache_integrity_def)

lemma frame_fields:
  "s' = s\<lparr>heap := H, next_free := F\<rparr> \<Longrightarrow>
     root s' = root s \<and> tree_size s' = tree_size s \<and> density_matrix s' = density_matrix s
     \<and> atomic_rho s' = atomic_rho s \<and> atomic_z s' = atomic_z s \<and> atomic_norm s' = atomic_norm s
     \<and> trial_nodes s' = trial_nodes s \<and> inserted_nodes s' = inserted_nodes s
     \<and> backup_nodes s' = backup_nodes s"
  by simp

section \<open>Trial insertions and their rollback\<close>

lemma unlinked_Nil [simp]: "unlinked [] ins a nd = nd"
  by (simp add: unlinked_def)

lemma unlink_trial_nodes_spec:
  "list_all (\<lambda>j. in_range (int j) (inserted_nodes s)) js \<Longrightarrow>
   unlink_trial_nodes js s = Inr (s\<lparr>heap := \<lambda>a. unlinked js (inserted_nodes s) a (heap s a)\<rparr>)"
proof (induction js arbitrary: s)
  case Nil
  then show ?case by simp
next
  case (Cons j js)
  from Cons.prems have jr: "in_range (int j) (inserted_nodes s)"
    and rest: "list_all (\<lambda>j. in_range (int j) (inserted_nodes s)) js" by auto
  obtain p sd where ins: "inserted_nodes s ! j = (p, sd)" by (cases "inserted_nodes s ! j")
  show ?case
  proof (cases p)
    case None
    have u: "\<And>a nd. unlinked (j # js) (inserted_nodes s) a nd = unlinked js (inserted_nodes s) a nd"
      using ins None by (simp add: unlinked_def)
    from Cons.IH[OF rest] jr ins None show ?thesis by (simp add: u)
  next
    case (Some pa)
    let ?s1 = "node_update pa (set_child sd None) s"
    have rest1: "list_all (\<lambda>j. in_range (int j) (inserted_nodes ?s1)) js"
      using rest by (simp add: node_update_def)
    have i1: "inserted_nodes ?s1 = inserted_nodes s" by (simp add: node_update_def)
    have "(\<lambda>a. unlinked js (inserted_nodes s) a (heap ?s1 a)) = (\<lambda>a. unlinked (j # js) (inserted_nodes s) a (heap s a))"
    proof
      fix a
      show "unlinked js (inserted_nodes s) a (heap ?s1 a) = unlinked (j # js) (inserted_nodes s) a (heap s a)"
      proof (cases "a = pa")
        case True
        then show ?thesis using ins Some
          by (cases sd) (auto simp add: unlinked_def set_child_def)
      next
        case False
        then show ?thesis using ins Some
          by (auto simp add: unlinked_def)
      qed
    qed
    then have "?s1\<lparr>heap := \<lambda>a. unlinked js (inserted_nodes ?s1) a (heap ?s1 a)\<rparr>
        = s\<lparr>heap := \<lambda>a. unlinked (j # js) (inserted_nodes s) a (heap s a)\<rparr>"
      by (simp add: i1) (simp add: node_update_def)
    with Cons.IH[OF rest1] jr ins Some show ?thesis by simp
  qed
qed

lemma get_child_simps [simp]:
  "get_child True nd = left nd" "get_child False nd = right nd"
  by (simp_all add: get_child_def)

lemma set_ins_shape [simp]: "set (inorder (ins_shape h k na t)) = insert na (set (inorder t))"
  by (induction t) auto

lemma distinct_ins_shape:
  "distinct (inorder t) \<Longrightarrow> na \<notin> set (inorder t) \<Longrightarrow> distinct (inorder (ins_shape h k na t))"
  by (induction t) auto

lemma search_end_free:
  "is_tree h r t \<Longrightarrow> t \<noteq> Leaf \<Longrightarrow> \<not> key_found h k t \<Longrightarrow>
   get_child (comparator k (key (h (last (search_path h k t))))) (h (last (search_path h k t))) = None"
proof (induction t arbitrary: r)
  case Leaf
  then show ?case by simp
next
  case (Node l a r0)
  from Node.prems have ka: "k \<noteq> key (h a)" by (simp add: key_found_Node)
  define c where "c = comparator k (key (h a))"
  define sub where "sub = (if c then l else r0)"
  from Node.prems have tsub: "is_tree h (get_child c (h a)) sub" by (cases c) (auto simp: sub_def)
  from Node.prems ka have nf: "\<not> key_found h k sub" by (cases c) (auto simp: key_found_Node sub_def c_def)
  have sp: "search_path h k (Node l a r0) = a # search_path h k sub"
    using ka by (simp add: sub_def c_def)
  show ?case
  proof (cases "sub = Leaf")
    case True
    with tsub have "get_child c (h a) = None" by simp
    with True show ?thesis unfolding sp by (simp add: c_def)
  next
    case False
    then have ne: "search_path h k sub \<noteq> []" by (rule search_path_nonempty)
    have "get_child (comparator k (key (h (last (search_path h k sub))))) (h (last (search_path h k sub))) = None"
      using Node.IH(1)[of "get_child c (h a)"] Node.IH(2)[of "get_child c (h a)"] tsub False nf
      by (cases c) (auto simp: sub_def)
    with ne show ?thesis unfolding sp by simp
  qed
qed

lemma is_tree_graft:
  "is_tree h r t \<Longrightarrow> distinct (inorder t) \<Longrightarrow> na \<notin> set (inorder t) \<Longrightarrow> t \<noteq> Leaf \<Longrightarrow>
   \<not> key_found h k t \<Longrightarrow>
   (\<And>a sd. a \<in> set (inorder t) \<Longrightarrow>
      get_child sd (h' a) =
        (if a = last (search_path h k t) \<and> sd = comparator k (key (h (last (search_path h k t))))
         then Some na else get_child sd (h a))) \<Longrightarrow>
   left (h' na) = None \<Longrightarrow> right (h' na) = None \<Longrightarrow>
   is_tree h' r (ins_shape h k na t)"
proof (induction t arbitrary: r)
  case Leaf
  then show ?case by simp
next
  case (Node l a r0)
  from Node.prems have r: "r = Some a" and tl: "is_tree h (left (h a)) l" and tr: "is_tree h (right (h a)) r0"
    by auto
  from Node.prems have ka: "k \<noteq> key (h a)" by (simp add: key_found_Node)
  let ?P = "last (search_path h k (Node l a r0))"
  let ?side = "comparator k (key (h ?P))"
  note links = Node.prems(6)
  show ?case
  proof (cases "comparator k (key (h a))")
    case c: True
    have sp: "search_path h k (Node l a r0) = a # search_path h k l" using ka c by simp
    from Node.prems c ka have nf: "\<not> key_found h k l" by (simp add: key_found_Node)
    have pr: "?P \<notin> set (inorder r0)"
    proof (cases "l = Leaf")
      case True
      then show ?thesis using Node.prems(2) unfolding sp by simp
    next
      case False
      then have "last (search_path h k l) \<in> set (inorder l)"
        using search_path_nonempty search_path_subset last_in_set by blast
      then show ?thesis using Node.prems(2) search_path_nonempty[OF False, of h k] unfolding sp
        by auto
    qed
    have tr': "is_tree h' (right (h' a)) r0"
    proof -
      have "right (h' a) = right (h a)" using links[of a False] c unfolding sp
        by (cases "l = Leaf") (auto simp: search_path_nonempty)
      moreover have "is_tree h' (right (h a)) r0"
      proof (rule is_tree_frame[OF tr])
        fix b assume b: "b \<in> set (inorder r0)"
        with pr have "b \<noteq> ?P" by auto
        with links[of b True] links[of b False] b
        show "left (h' b) = left (h b) \<and> right (h' b) = right (h b)" by simp
      qed
      ultimately show ?thesis by simp
    qed
    have tl': "is_tree h' (left (h' a)) (ins_shape h k na l)"
    proof (cases "l = Leaf")
      case True
      with tl have "left (h a) = None" by simp
      have "left (h' a) = Some na" using links[of a True] c True unfolding sp by simp
      with True Node.prems(7,8) show ?thesis by simp
    next
      case False
      then have ne: "search_path h k l \<noteq> []" by (rule search_path_nonempty)
      then have pl: "last (search_path h k l) \<in> set (inorder l)"
        using search_path_subset last_in_set by blast
      with Node.prems(2) have pa: "last (search_path h k l) \<noteq> a" by auto
      have la: "left (h' a) = left (h a)" using links[of a True] pa ne unfolding sp by simp
      have "is_tree h' (left (h a)) (ins_shape h k na l)"
      proof (rule Node.IH(1)[OF tl _ _ False nf _ Node.prems(7,8)])
        show "distinct (inorder l)" using Node.prems(2) by simp
        show "na \<notin> set (inorder l)" using Node.prems(3) by simp
        fix b sd assume "b \<in> set (inorder l)"
        then show "get_child sd (h' b) =
          (if b = last (search_path h k l) \<and> sd = comparator k (key (h (last (search_path h k l))))
           then Some na else get_child sd (h b))"
          using links[of b sd] ne unfolding sp by simp
      qed
      with la show ?thesis by simp
    qed
    from tl' tr' c r show ?thesis by simp
  next
    case c: False
    have sp: "search_path h k (Node l a r0) = a # search_path h k r0" using ka c by simp
    from Node.prems c ka have nf: "\<not> key_found h k r0" by (simp add: key_found_Node)
    have pr: "?P \<notin> set (inorder l)"
    proof (cases "r0 = Leaf")
      case True
      then show ?thesis using Node.prems(2) unfolding sp by simp
    next
      case False
      then have "last (search_path h k r0) \<in> set (inorder r0)"
        using search_path_nonempty search_path_subset last_in_set by blast
      then show ?thesis using Node.prems(2) search_path_nonempty[OF False, of h k] unfolding sp
        by auto
    qed
    have tl': "is_tree h' (left (h' a)) l"
    proof -
      have "left (h' a) = left (h a)" using links[of a True] c unfolding sp
        by (cases "r0 = Leaf") (auto simp: search_path_nonempty)
      moreover have "is_tree h' (left (h a)) l"
      proof (rule is_tree_frame[OF tl])
        fix b assume b: "b \<in> set (inorder l)"
        with pr have "b \<noteq> ?P" by auto
        with links[of b True] links[of b False] b
        show "left (h' b) = left (h b) \<and> right (h' b) = right (h b)" by simp
      qed
      ultimately show ?thesis by simp
    qed
    have tr': "is_tree h' (right (h' a)) (ins_shape h k na r0)"
    proof (cases "r0 = Leaf")
      case True
      have "right (h' a) = Some na" using links[of a False] c True unfolding sp by simp
      with True Node.prems(7,8) show ?thesis by simp
    next
      case False
      then have ne: "search_path h k r0 \<noteq> []" by (rule search_path_nonempty)
      then have pl: "last (search_path h k r0) \<in> set (inorder r0)"
        using search_path_subset last_in_set by blast
      with Node.prems(2) have pa: "last (search_path h k r0) \<noteq> a" by auto
      have ra: "right (h' a) = right (h a)" using links[of a False] pa ne unfolding sp by simp
      have "is_tree h' (right (h a)) (ins_shape h k na r0)"
      proof (rule Node.IH(2)[OF tr _ _ False nf _ Node.prems(7,8)])
        show "distinct (inorder r0)" using Node.prems(2) by simp
        show "na \<notin> set (inorder r0)" using Node.prems(3) by simp
        fix b sd assume "b \<in> set (inorder r0)"
        then show "get_child sd (h' b) =
          (if b = last (search_path h k r0) \<and> sd = comparator k (key (h (last (search_path h k r0))))
           then Some na else get_child sd (h b))"
          using links[of b sd] ne unfolding sp by simp
      qed
      with ra show ?thesis by simp
    qed
    from tl' tr' c r show ?thesis by simp
  qed
qed

lemma try_insert_unfold:
  assumes "index (trial_nodes s) \<le> 3"
    and "in_range (index (trial_nodes s) + 1) (nodes (trial_nodes s))"
    and "in_range (index (trial_nodes s) + 1) (inserted_nodes s)"
    and "nodes (trial_nodes s) ! nat (index (trial_nodes s) + 1) = Some na"
    and "s3 = reset na tau o_new
           (s\<lparr>trial_nodes := (trial_nodes s)\<lparr>i := index (trial_nodes s) + 1\<rparr>,
              inserted_nodes := (inserted_nodes s)[nat (index (trial_nodes s) + 1) := (None, False)]\<rparr>)"
  shows "try_insert tau o_new s =
     Option.bind (try_insert_impl (root s3) (Some na) s3)
       (\<lambda>r. case r of Inl e \<Rightarrow> Some (Inl e)
          | Inr (new_root, s4) \<Rightarrow> Some (Inr (s4\<lparr>root := new_root, tree_size := tree_size s4 + 1\<rparr>)))"
  using assms(1-4) unfolding assms(5)
  by (simp add: try_insert_def take_next_def index_def Let_def)

lemma try_insert_ok_pool:
  assumes "try_insert tau o_new s = Some (Inr s')"
  shows "index (trial_nodes s) \<le> 3 \<and> in_range (index (trial_nodes s) + 1) (nodes (trial_nodes s))
     \<and> in_range (index (trial_nodes s) + 1) (inserted_nodes s)
     \<and> nodes (trial_nodes s) ! nat (index (trial_nodes s) + 1) \<noteq> None"
  using assms
  by (auto simp: try_insert_def take_next_def index_def Let_def split: if_splits option.splits)

lemma ins_state_heap:
  "heap (ins_state na k t s) a =
     (let path = search_path (heap s) k t; p = last path; side = comparator k (key (heap s p))
      in if a = p then (set_child side (Some na) (heap s a))\<lparr>modified := True\<rparr>
         else if a \<in> set path then (heap s a)\<lparr>modified := True\<rparr> else heap s a)"
  by (simp add: ins_state_def Let_def heap_map_def)

lemma ins_state_child:
  "get_child sd (heap (ins_state na k t s) a) =
     (if a = last (search_path (heap s) k t)
         \<and> sd = comparator k (key (heap s (last (search_path (heap s) k t))))
      then Some na else get_child sd (heap s a))"
  by (cases sd) (auto simp: ins_state_heap Let_def set_child_def)

lemma ins_state_same_data: "same_data (heap (ins_state na k t s) a) (heap s a)"
  by (auto simp: ins_state_heap Let_def set_child_def same_data_def)

lemma ins_state_inserted:
  "inserted_nodes (ins_state na k t s) =
     (inserted_nodes s)[nat (index (trial_nodes s)) :=
        (Some (last (search_path (heap s) k t)),
         comparator k (key (heap s (last (search_path (heap s) k t)))))]"
  by (simp add: ins_state_def Let_def)

lemma ins_state_rest:
  "(ins_state na k t s)\<lparr>heap := H, inserted_nodes := I\<rparr> = s\<lparr>heap := H, inserted_nodes := I\<rparr>"
  by (simp add: ins_state_def Let_def)

lemma same_data_refl [simp]: "same_data x x"
  by (simp add: same_data_def)

lemma same_data_trans: "same_data x y \<Longrightarrow> same_data y z \<Longrightarrow> same_data x z"
  by (simp add: same_data_def)

lemma nth_notin_take: "distinct xs \<Longrightarrow> k < length xs \<Longrightarrow> xs ! k \<notin> set (take k xs)"
  by (metis distinct_take id_take_nth_drop not_distinct_conv_prefix distinct_append append.assoc append_Cons)

lemma pendingD:
  assumes "pending s0 t0 s t k"
  shows "trial_nodes s = (trial_nodes s0)\<lparr>i := int k - 1\<rparr>"
    and "k \<le> length (nodes (trial_nodes s0))"
    and "is_tree (heap s) (root s) t" and "distinct (inorder t)"
    and "set (inorder t) = set (inorder t0) \<union> set (take k (pool_addrs (trial_nodes s0)))"
    and "\<And>a sd. get_child sd (heap s a) = get_child sd (heap s0 a)
                 \<or> (get_child sd (heap s0 a) = None \<and> (\<exists>j<k. inserted_nodes s ! j = (Some a, sd)))"
    and "\<And>j a sd. j < k \<Longrightarrow> inserted_nodes s ! j = (Some a, sd) \<Longrightarrow>
                 get_child sd (heap s0 a) = None \<and> a \<in> set (inorder t)"
    and "\<And>a. a \<notin> set (pool_addrs (trial_nodes s0)) \<Longrightarrow> same_data (heap s a) (heap s0 a)"
    and "tree_size s = tree_size s0 + int k"
    and "root s = root s0 \<or> root s0 = None"
    and "length (inserted_nodes s) = length (inserted_nodes s0)"
    and "s\<lparr>heap := heap s0, root := root s0, tree_size := tree_size s0,
            trial_nodes := trial_nodes s0, inserted_nodes := inserted_nodes s0\<rparr> = s0"
  using assms unfolding pending_def by (elim conjE; (assumption | blast))+

lemma cleanD:
  assumes "clean s t"
  shows "is_tree (heap s) (root s) t"
    and "distinct (inorder t @ pool_addrs (trial_nodes s))"
    and "unmodified (heap s) t"
    and "tree_size s = int (length (inorder t))"
    and "rbt_size s = tree_size s"
    and "index (trial_nodes s) = - 1"
    and "list_all (\<lambda>n. n \<noteq> None) (nodes (trial_nodes s))"
    and "length (inserted_nodes s) = length (nodes (trial_nodes s))"
    and "list_all (\<lambda>a. left (heap s a) = None \<and> right (heap s a) = None) (pool_addrs (trial_nodes s))"
  using assms unfolding clean_def by blast+

lemma pending_try_insert:
  assumes c: "clean s0 t0" and p: "pending s0 t0 s t k"
    and ti: "try_insert tau o_new s = Some (Inr s')"
  shows "\<exists>t'. pending s0 t0 s' t' (Suc k)"
proof -
  let ?ns = "nodes (trial_nodes s0)"
  let ?pool = "pool_addrs (trial_nodes s0)"
  note P = pendingD[OF p]
  note C = cleanD[OF c]
  have lp: "length ?pool = length ?ns" by (simp add: pool_addrs_def)
  have idx: "index (trial_nodes s) = int k - 1" by (simp add: P(1) index_def)
  have nds: "nodes (trial_nodes s) = ?ns" by (simp add: P(1))
  from try_insert_ok_pool[OF ti] have g: "index (trial_nodes s) \<le> 3" and kr: "k < length ?ns"
    by (simp_all add: idx nds in_range_def)
  define na where "na = ?pool ! k"
  have nk: "?ns ! k = Some na"
    using C(7) kr by (auto simp: na_def pool_addrs_def list_all_length)
  have li: "length (inserted_nodes s) = length ?ns" using P(11) C(8) by simp
  define s3 where "s3 = reset na tau o_new
      (s\<lparr>trial_nodes := (trial_nodes s)\<lparr>i := int k\<rparr>,
         inserted_nodes := (inserted_nodes s)[k := (None, False)]\<rparr>)"
  have unf: "try_insert tau o_new s =
     Option.bind (try_insert_impl (root s3) (Some na) s3)
       (\<lambda>r. case r of Inl e \<Rightarrow> Some (Inl e)
          | Inr (new_root, s4) \<Rightarrow> Some (Inr (s4\<lparr>root := new_root, tree_size := tree_size s4 + 1\<rparr>)))"
    by (rule try_insert_unfold[OF g]) (simp_all add: idx nds in_range_def kr li nk s3_def)
  have h3: "heap s3 = (heap s)(na := (heap s na)\<lparr>key := tau, op := o_new\<rparr>)"
    by (simp add: s3_def reset_def)
  have r3: "root s3 = root s" and ts3: "tree_size s3 = tree_size s"
    and tn3: "trial_nodes s3 = (trial_nodes s0)\<lparr>i := int k\<rparr>"
    and in3: "inserted_nodes s3 = (inserted_nodes s)[k := (None, False)]"
    by (simp_all add: s3_def reset_def node_update_def P(1))
  have fr3: "s3\<lparr>heap := heap s0, root := root s0, tree_size := tree_size s0,
            trial_nodes := trial_nodes s0, inserted_nodes := inserted_nodes s0\<rparr> = s0"
    using P(12) by (simp add: s3_def reset_def node_update_def)
  have na_pool: "na \<in> set ?pool" using kr lp by (simp add: na_def)
  have na_t0: "na \<notin> set (inorder t0)" using C(2) na_pool by auto
  have na_take: "na \<notin> set (take k ?pool)"
    unfolding na_def using C(2) kr lp by (intro nth_notin_take) simp_all
  have na_t: "na \<notin> set (inorder t)" using P(5) na_t0 na_take by simp
  have links3: "\<And>a sd. get_child sd (heap s3 a) = get_child sd (heap s a)"
    by (simp add: h3 get_child_def)
  have t3: "is_tree (heap s3) (root s3) t"
    unfolding r3 by (rule is_tree_frame[OF P(3)]) (use links3[of True] links3[of False] in simp)
  have na_base: "\<And>sd. get_child sd (heap s0 na) = None"
    using C(9) na_pool by (auto simp: list_all_iff get_child_def)
  have na_free: "\<And>sd. get_child sd (heap s3 na) = None"
    using P(6)[of _ na] P(7)[of _ na] na_t na_base by (metis links3)
  have k3: "key (heap s3 na) = tau" by (simp add: h3)
  have ir3: "in_range (index (trial_nodes s3)) (inserted_nodes s3)"
    using kr li by (simp add: tn3 in3 index_def in_range_def)
  have slot3: "fst (inserted_nodes s3 ! nat (index (trial_nodes s3))) = None"
    using kr li by (simp add: tn3 in3 index_def)
  have tk: "set (take (Suc k) ?pool) = insert na (set (take k ?pool))"
    using kr lp by (simp add: take_Suc_conv_app_nth na_def)
  have sd3: "\<And>a. a \<notin> set ?pool \<Longrightarrow> same_data (heap s3 a) (heap s0 a)"
    using P(8) na_pool by (auto simp: h3)
  show ?thesis
  proof (cases "t = Leaf")
    case True
    with P(3) have rn: "root s = None" by simp
    from True P(5) have e0: "set (inorder t0) = {}" "set (take k ?pool) = {}" by auto
    then have t0: "t0 = Leaf" by (cases t0) auto
    with C(1) have r0: "root s0 = None" by simp
    have s': "s' = s3\<lparr>root := Some na, tree_size := tree_size s3 + 1\<rparr>"
      using ti by (simp add: unf r3 rn)
    have "pending s0 t0 s' (Node Leaf na Leaf) (Suc k)"
      unfolding pending_def
    proof (intro conjI allI impI)
      show "trial_nodes s' = (trial_nodes s0)\<lparr>i := int (Suc k) - 1\<rparr>" by (simp add: s' tn3)
      show "Suc k \<le> length ?ns" using kr by simp
      show "is_tree (heap s') (root s') (Node Leaf na Leaf)"
        using na_free[of True] na_free[of False] by (simp add: s')
      show "distinct (inorder (Node Leaf na Leaf))" by simp
      show "set (inorder (Node Leaf na Leaf)) = set (inorder t0) \<union> set (take (Suc k) ?pool)"
        unfolding tk e0 by simp
      show "tree_size s' = tree_size s0 + int (Suc k)" by (simp add: s' ts3 P(9))
      show "root s' = root s0 \<or> root s0 = None" by (simp add: r0)
      show "length (inserted_nodes s') = length (inserted_nodes s0)" by (simp add: s' in3 P(11))
      show "s'\<lparr>heap := heap s0, root := root s0, tree_size := tree_size s0,
            trial_nodes := trial_nodes s0, inserted_nodes := inserted_nodes s0\<rparr> = s0"
        using fr3 by (simp add: s')
    next
      fix a sd
      show "get_child sd (heap s' a) = get_child sd (heap s0 a) \<or>
           get_child sd (heap s0 a) = None \<and> (\<exists>j<Suc k. inserted_nodes s' ! j = (Some a, sd))"
      proof (cases "get_child sd (heap s a) = get_child sd (heap s0 a)")
        case True
        then show ?thesis by (simp add: s' links3)
      next
        case False
        with P(6)[of sd a] obtain j where "get_child sd (heap s0 a) = None" "j < k" "inserted_nodes s ! j = (Some a, sd)"
          by blast
        then show ?thesis by (auto simp: s' in3 intro!: exI[of _ j])
      qed
    next
      fix a assume "a \<notin> set ?pool"
      then show "same_data (heap s' a) (heap s0 a)" using sd3 by (simp add: s')
    next
      fix j a sd assume j: "j < Suc k" and e: "inserted_nodes s' ! j = (Some a, sd)"
      have "j < k" using j e kr li by (cases "j = k") (auto simp: s' in3)
      with e P(7)[of j a sd] have "get_child sd (heap s0 a) = None \<and> a \<in> set (inorder t)"
        by (simp add: s' in3)
      with True show "get_child sd (heap s0 a) = None" "a \<in> set (inorder (Node Leaf na Leaf))"
        by auto
    qed
    then show ?thesis ..
  next
    case False
    have nf: "\<not> key_found (heap s3) tau t"
    proof
      assume "key_found (heap s3) tau t"
      from try_insert_impl_found[OF t3 this k3] ti show False by (simp add: unf)
    qed
    have ok: "try_insert_impl (root s3) (Some na) s3 = Some (Inr (root s3, ins_state na tau t s3))"
      by (rule try_insert_impl_ok[OF t3 False P(4) nf k3 na_t ir3 slot3])
    define s4 where "s4 = ins_state na tau t s3"
    have s': "s' = s4\<lparr>root := root s3, tree_size := tree_size s4 + 1\<rparr>"
      using ti by (simp add: unf ok s4_def)
    let ?P = "last (search_path (heap s3) tau t)"
    let ?side = "comparator tau (key (heap s3 ?P))"
    let ?t' = "ins_shape (heap s3) tau na t"
    have Pin: "?P \<in> set (inorder t)"
      using search_path_nonempty[OF False] search_path_subset last_in_set by blast
    have Pfree: "get_child ?side (heap s3 ?P) = None" by (rule search_end_free[OF t3 False nf])
    have child4: "\<And>a sd. get_child sd (heap s4 a) =
        (if a = ?P \<and> sd = ?side then Some na else get_child sd (heap s a))"
      by (simp add: s4_def ins_state_child links3)
    have in4: "inserted_nodes s4 = (inserted_nodes s)[k := (Some ?P, ?side)]"
      by (simp add: s4_def ins_state_inserted tn3 in3 index_def)
    have tn4: "trial_nodes s4 = (trial_nodes s0)\<lparr>i := int k\<rparr>" and ts4: "tree_size s4 = tree_size s3"
      by (simp_all add: s4_def tn3)
    have Pbase: "get_child ?side (heap s0 ?P) = None"
      using P(6)[of ?side ?P] Pfree links3 by auto
    have t4: "is_tree (heap s4) (root s3) ?t'"
    proof (rule is_tree_graft[OF t3 P(4) na_t False nf])
      fix a sd
      show "get_child sd (heap s4 a) =
          (if a = ?P \<and> sd = ?side then Some na else get_child sd (heap s3 a))"
        by (simp add: s4_def ins_state_child)
    next
      from Pin na_t have "na \<noteq> ?P" by auto
      then show "left (heap s4 na) = None" "right (heap s4 na) = None"
        using child4[of True na] child4[of False na] na_free[of True] na_free[of False] links3
        by simp_all
    qed
    have eq4: "s4 = s3\<lparr>heap := heap s4, inserted_nodes := inserted_nodes s4\<rparr>"
      by (simp add: s4_def ins_state_def Let_def)
    have "pending s0 t0 s' ?t' (Suc k)"
      unfolding pending_def
    proof (intro conjI allI impI)
      show "trial_nodes s' = (trial_nodes s0)\<lparr>i := int (Suc k) - 1\<rparr>" by (simp add: s' tn4)
      show "Suc k \<le> length ?ns" using kr by simp
      show "is_tree (heap s') (root s') ?t'" using t4 by (simp add: s')
      show "distinct (inorder ?t')" by (rule distinct_ins_shape[OF P(4) na_t])
      show "set (inorder ?t') = set (inorder t0) \<union> set (take (Suc k) ?pool)"
        unfolding tk by (simp add: P(5))
      show "tree_size s' = tree_size s0 + int (Suc k)" by (simp add: s' ts4 ts3 P(9))
      show "root s' = root s0 \<or> root s0 = None" using P(10) by (simp add: s' r3)
      show "length (inserted_nodes s') = length (inserted_nodes s0)" by (simp add: s' in4 P(11))
      show "s'\<lparr>heap := heap s0, root := root s0, tree_size := tree_size s0,
            trial_nodes := trial_nodes s0, inserted_nodes := inserted_nodes s0\<rparr> = s0"
        unfolding s' by (subst eq4) (use fr3 in simp)
    next
      fix a sd
      show "get_child sd (heap s' a) = get_child sd (heap s0 a) \<or>
           get_child sd (heap s0 a) = None \<and> (\<exists>j<Suc k. inserted_nodes s' ! j = (Some a, sd))"
      proof (cases "a = ?P \<and> sd = ?side")
        case True
        then show ?thesis using Pbase kr li by (auto simp: s' in4 intro!: exI[of _ k])
      next
        case nP: False
        have c4: "get_child sd (heap s4 a) = get_child sd (heap s a)"
          unfolding child4 using nP by (rule if_not_P)
        have h': "heap s' = heap s4" by (simp add: s')
        show ?thesis
        proof (cases "get_child sd (heap s a) = get_child sd (heap s0 a)")
          case True
          then show ?thesis unfolding h' c4 by simp
        next
          case False
          with P(6)[of sd a] obtain j where "get_child sd (heap s0 a) = None" "j < k" "inserted_nodes s ! j = (Some a, sd)"
            by blast
          then show ?thesis by (auto simp: s' in4 intro!: exI[of _ j])
        qed
      qed
    next
      fix a assume "a \<notin> set ?pool"
      then have "same_data (heap s3 a) (heap s0 a)" by (rule sd3)
      with ins_state_same_data[of na tau t s3 a] show "same_data (heap s' a) (heap s0 a)"
        by (auto simp: s' s4_def intro: same_data_trans)
    next
      fix j a sd assume j: "j < Suc k" and e: "inserted_nodes s' ! j = (Some a, sd)"
      have "get_child sd (heap s0 a) = None \<and> a \<in> set (inorder t)"
      proof (cases "j = k")
        case True
        have "inserted_nodes s' ! k = (Some ?P, ?side)" using kr li by (simp add: s' in4)
        with e True have "a = ?P" "sd = ?side" by (metis prod.inject option.inject)+
        with Pbase Pin show ?thesis by simp
      next
        case False
        with j have "j < k" by simp
        with e P(7)[of j a sd] False show ?thesis by (simp add: s' in4)
      qed
      then show "get_child sd (heap s0 a) = None" "a \<in> set (inorder ?t')" by simp_all
    qed
    then show ?thesis ..
  qed
qed

lemma pending_init: "clean s0 t0 \<Longrightarrow> pending s0 t0 s0 t0 0"
  unfolding pending_def using cleanD[of s0 t0]
  by (auto simp: index_def)

lemma pending_try_insert_seq:
  assumes c: "clean s0 t0"
  shows "pending s0 t0 s t k \<Longrightarrow> try_insert_seq ins s = Some (Inr s') \<Longrightarrow>
     \<exists>t' k'. pending s0 t0 s' t' k'"
proof (induction ins arbitrary: s t k)
  case Nil
  then show ?case by auto
next
  case (Cons x ins)
  obtain tau o_new where x: "x = (tau, o_new)" by (cases x)
  from Cons.prems(2) obtain s1 where s1: "try_insert tau o_new s = Some (Inr s1)"
    and rest: "try_insert_seq ins s1 = Some (Inr s')"
    by (auto simp: x split: option.splits sum.splits)
  from pending_try_insert[OF c Cons.prems(1) s1] obtain t1 where "pending s0 t0 s1 t1 (Suc k)" ..
  from Cons.IH[OF this rest] show ?case .
qed

lemma node_eqI:
  "same_data x y \<Longrightarrow> left x = left y \<Longrightarrow> right x = right y \<Longrightarrow> modified x = modified y \<Longrightarrow> x = (y :: 'd node_t)"
  by (simp add: same_data_def)

lemma unlinked_fields:
  "same_data (unlinked js ins a nd) nd" "modified (unlinked js ins a nd) = modified nd"
  by (simp_all add: unlinked_def same_data_def)

lemma unlinked_child:
  "get_child sd (unlinked js ins a nd) = (if \<exists>j \<in> set js. ins ! j = (Some a, sd) then None else get_child sd nd)"
  by (cases sd) (simp_all add: unlinked_def)

lemma cancel_insert_impl_pending:
  assumes c: "clean s0 t0" and p: "pending s0 t0 s t k"
  defines "H \<equiv> \<lambda>a. unlinked [0 ..< k] (inserted_nodes s) a (heap s a)"
  shows "cancel_insert_impl s = Inr (s\<lparr>heap := H, root := root s0\<rparr>)"
    and "\<And>a sd. get_child sd (H a) = get_child sd (heap s0 a)"
    and "is_tree H (root s0) t0"
proof -
  note P = pendingD[OF p]
  note C = cleanD[OF c]
  have idx: "index (trial_nodes s) = int k - 1" by (simp add: P(1) index_def)
  have li: "length (inserted_nodes s) = length (nodes (trial_nodes s0))" using P(11) C(8) by simp
  have rng: "list_all (\<lambda>j. in_range (int j) (inserted_nodes s)) [0 ..< k]"
    using P(2) li by (simp add: list_all_iff in_range_def)
  have ul: "unlink_trial_nodes [0 ..< k] s = Inr (s\<lparr>heap := H\<rparr>)"
    using unlink_trial_nodes_spec[OF rng] by (simp add: H_def)
  have root: "(if tree_size s = int k then None else root s) = root s0"
  proof (cases "tree_size s0 = 0")
    case True
    with C(4) have "t0 = Leaf" by (cases t0) auto
    with C(1) have "root s0 = None" by simp
    with True P(9) show ?thesis by simp
  next
    case False
    with C(4) have "t0 \<noteq> Leaf" by auto
    with C(1) have "root s0 \<noteq> None" by (cases t0) auto
    with P(10) False P(9) show ?thesis by simp
  qed
  show "cancel_insert_impl s = Inr (s\<lparr>heap := H, root := root s0\<rparr>)"
  proof (cases "tree_size s = int k")
    case True
    with root show ?thesis by (simp add: cancel_insert_impl_def ul idx)
  next
    case False
    with root have "root s = root s0" by simp
    then have "s\<lparr>heap := H, root := root s0\<rparr> = s\<lparr>heap := H\<rparr>"
      by (metis impurity_trace.surjective impurity_trace.update_convs(7,9))
    with False show ?thesis by (simp add: cancel_insert_impl_def ul idx)
  qed
  show links: "\<And>a sd. get_child sd (H a) = get_child sd (heap s0 a)"
  proof -
    fix a sd
    show "get_child sd (H a) = get_child sd (heap s0 a)"
    proof (cases "\<exists>j \<in> set [0 ..< k]. inserted_nodes s ! j = (Some a, sd)")
      case True
      then obtain j where "j < k" "inserted_nodes s ! j = (Some a, sd)" by auto
      from P(7)[OF this] True show ?thesis by (simp add: H_def unlinked_child)
    next
      case False
      then have "\<not> (\<exists>j<k. inserted_nodes s ! j = (Some a, sd))" by auto
      with P(6)[of sd a] False show ?thesis by (simp add: H_def unlinked_child)
    qed
  qed
  show "is_tree H (root s0) t0"
    by (rule is_tree_frame[OF C(1)]) (use links[of True] links[of False] in simp)
qed

lemma cancel_insert_pending:
  assumes c: "clean s0 t0" and p: "pending s0 t0 s t k"
  shows "\<exists>s'. cancel_insert s = Some (Inr s')
     \<and> root s' = root s0 \<and> is_tree (heap s') (root s') t0
     \<and> list_all (\<lambda>a. heap s' a = heap s0 a) (inorder t0)
     \<and> tree_size s' = tree_size s0
     \<and> atomic_z s' = atomic_z s0 \<and> density_matrix s' = density_matrix s0
     \<and> atomic_rho s' = atomic_rho s0 \<and> atomic_norm s' = atomic_norm s0
     \<and> clean s' t0"
proof -
  note P = pendingD[OF p]
  note C = cleanD[OF c]
  define H where "H = (\<lambda>a. unlinked [0 ..< k] (inserted_nodes s) a (heap s a))"
  note ci = cancel_insert_impl_pending[OF c p, folded H_def]
  have chH: "\<And>sd a. get_child sd (H a) = get_child sd (heap s0 a)"
    using cancel_insert_impl_pending(2)[OF c p] by (simp add: H_def)
  let ?A = "set (inorder t0)"
  let ?f = "\<lambda>nd::'a node_t. nd\<lparr>modified := False\<rparr>"
  define s3 where "s3 = s\<lparr>heap := H, root := root s0, trial_nodes := trial_nodes s0, tree_size := tree_size s0\<rparr>"
  define s' where "s' = s3\<lparr>heap := heap_map ?A ?f H\<rparr>"
  have tn: "snd (reset_index (trial_nodes s)) = trial_nodes s0"
    using C(6) by (simp add: reset_index_def P(1) index_def)
  have notpool: "\<And>a. a \<in> ?A \<Longrightarrow> a \<notin> set (pool_addrs (trial_nodes s0))"
    using C(2) by auto
  have sdH: "\<And>a. a \<in> ?A \<Longrightarrow> same_data (H a) (heap s0 a)"
  proof -
    fix a assume a: "a \<in> ?A"
    have "same_data (H a) (heap s a)" by (simp add: H_def unlinked_fields(1))
    then show "same_data (H a) (heap s0 a)"
      using P(8)[OF notpool[OF a]] by (rule same_data_trans)
  qed
  have rs: "rbt_size (s\<lparr>heap := H, root := root s0, trial_nodes := trial_nodes s0\<rparr>) = tree_size s0"
  proof (cases t0)
    case Leaf
    with C(1,4) show ?thesis by (simp add: rbt_size_def)
  next
    case (Node l r0 r)
    with C(1) have r: "root s0 = Some r0" "r0 \<in> ?A" by auto
    from sdH[OF r(2)] have "N (H r0) = N (heap s0 r0)" by (simp add: same_data_def)
    with C(5) r show ?thesis by (simp add: rbt_size_def)
  qed
  have t3: "is_tree (heap s3) (root s3) t0" using ci(3) by (simp add: s3_def)
  have cm: "clear_modified s3 = Some s'"
    using clear_modified_impl_tree[OF t3] by (simp add: clear_modified_def s'_def s3_def)
  have res: "cancel_insert s = Some (Inr s')"
    by (simp add: cancel_insert_def ci(1) tn rs Let_def s3_def[symmetric] cm check_cache_integrity_def)
  have heapA: "\<And>a. a \<in> ?A \<Longrightarrow> heap s' a = heap s0 a"
  proof -
    fix a assume a: "a \<in> ?A"
    have "(H a)\<lparr>modified := False\<rparr> = heap s0 a"
    proof (rule node_eqI)
      show "same_data ((H a)\<lparr>modified := False\<rparr>) (heap s0 a)"
        using sdH[OF a] by (simp add: same_data_def)
      show "left ((H a)\<lparr>modified := False\<rparr>) = left (heap s0 a)" using chH[of True a] by simp
      show "right ((H a)\<lparr>modified := False\<rparr>) = right (heap s0 a)" using chH[of False a] by simp
      show "modified ((H a)\<lparr>modified := False\<rparr>) = modified (heap s0 a)"
        using C(3) a by (simp add: unmodified_def list_all_iff)
    qed
    with a show "heap s' a = heap s0 a" by (simp add: s'_def heap_map_def)
  qed
  have heapO: "\<And>a. a \<notin> ?A \<Longrightarrow> heap s' a = H a" by (simp add: s'_def heap_map_def)
  have links': "\<And>a. left (heap s' a) = left (heap s0 a) \<and> right (heap s' a) = right (heap s0 a)"
    using chH[of True] chH[of False] by (simp add: s'_def heap_map_def)
  have r': "root s' = root s0" and ts': "tree_size s' = tree_size s0"
    and tn': "trial_nodes s' = trial_nodes s0" and in': "inserted_nodes s' = inserted_nodes s"
    by (simp_all add: s'_def s3_def)
  have t': "is_tree (heap s') (root s') t0"
    unfolding r' by (rule is_tree_frame[OF C(1)]) (simp add: links')
  have la: "list_all (\<lambda>a. heap s' a = heap s0 a) (inorder t0)"
    using heapA by (simp add: list_all_iff)
  have rest: "atomic_z s' = atomic_z s0" "density_matrix s' = density_matrix s0"
    "atomic_rho s' = atomic_rho s0" "atomic_norm s' = atomic_norm s0"
  proof -
    have "atomic_z s' = atomic_z (s\<lparr>heap := heap s0, root := root s0, tree_size := tree_size s0,
            trial_nodes := trial_nodes s0, inserted_nodes := inserted_nodes s0\<rparr>)"
      by (simp add: s'_def s3_def)
    then show "atomic_z s' = atomic_z s0" by (simp only: P(12))
    have "density_matrix s' = density_matrix (s\<lparr>heap := heap s0, root := root s0, tree_size := tree_size s0,
            trial_nodes := trial_nodes s0, inserted_nodes := inserted_nodes s0\<rparr>)"
      by (simp add: s'_def s3_def)
    then show "density_matrix s' = density_matrix s0" by (simp only: P(12))
    have "atomic_rho s' = atomic_rho (s\<lparr>heap := heap s0, root := root s0, tree_size := tree_size s0,
            trial_nodes := trial_nodes s0, inserted_nodes := inserted_nodes s0\<rparr>)"
      by (simp add: s'_def s3_def)
    then show "atomic_rho s' = atomic_rho s0" by (simp only: P(12))
    have "atomic_norm s' = atomic_norm (s\<lparr>heap := heap s0, root := root s0, tree_size := tree_size s0,
            trial_nodes := trial_nodes s0, inserted_nodes := inserted_nodes s0\<rparr>)"
      by (simp add: s'_def s3_def)
    then show "atomic_norm s' = atomic_norm s0" by (simp only: P(12))
  qed
  have cl: "clean s' t0"
    unfolding clean_def
  proof (intro conjI)
    show "is_tree (heap s') (root s') t0" by (rule t')
    show "distinct (inorder t0 @ pool_addrs (trial_nodes s'))" using C(2) by (simp add: tn')
    show "unmodified (heap s') t0" using C(3) heapA by (simp add: unmodified_def list_all_iff)
    show "tree_size s' = int (length (inorder t0))" using C(4) by (simp add: ts')
    show "rbt_size s' = tree_size s'"
    proof (cases t0)
      case Leaf
      with C(1,4) show ?thesis by (simp add: rbt_size_def r' ts')
    next
      case (Node l r0 r)
      with C(1) have r: "root s0 = Some r0" "r0 \<in> ?A" by auto
      with C(5) heapA[OF r(2)] show ?thesis by (simp add: rbt_size_def r' ts')
    qed
    show "index (trial_nodes s') = - 1" using C(6) by (simp add: tn')
    show "list_all (\<lambda>n. n \<noteq> None) (nodes (trial_nodes s'))" using C(7) by (simp add: tn')
    show "length (inserted_nodes s') = length (nodes (trial_nodes s'))"
      using P(11) C(8) by (simp add: tn' in')
    show "list_all (\<lambda>a. left (heap s' a) = None \<and> right (heap s' a) = None) (pool_addrs (trial_nodes s'))"
      using C(9) links' by (simp add: tn' list_all_iff)
  qed
  from res r' t' la ts' rest cl show ?thesis by blast
qed

section \<open>Evaluation on the example states\<close>

lemmas insert_defs = try_insert_def try_insert_impl.simps take_next_def in_range_def
  index_def reset_def node_update_def link_and_mark_def get_child_def set_child_def Let_def

lemmas replace_defs = try_replace_def try_replace_impl.simps replace_node_def reserve_def
  swap_next_def is_index_reset_def rbt_size_def make_new_node_def in_range_def reset_def node_update_def
  Let_def eval_nat_numeral

lemmas delete_defs = try_delete_def find_if_def find_if_impl.simps delete_pred_def
  set_modified_from_root_to_def set_modified_impl.simps node_update_def Let_def

lemmas cancel_defs = cancel_insert_def cancel_insert_impl_def reset_index_def rbt_size_def
  clear_modified_def clear_modified_impl.simps check_cache_integrity_def index_def in_range_def
  node_update_def set_child_def Let_def upt_rec

lemma clean_ex_tree: "clean ex_tree ex_shape"
  by (simp add: clean_def ex_defs unmodified_def rbt_size_def index_def pool_addrs_def)

lemma clean_ex_one: "clean ex_one (Node Leaf 10 Leaf)"
  by (simp add: clean_def ex_one_def ex_defs unmodified_def rbt_size_def index_def pool_addrs_def)



section \<open>Marking of the paths to changed nodes\<close>
























section \<open>Claims\<close>

text \<open>
  C10. \<open>try_delete\<close> dereferences the result of its search without a check. On a tree
  with fewer than \<open>n + 1\<close> operators of the given dagger tag and block index the search
  returns \<open>nullptr\<close>, which is pushed on \<open>removed_nodes\<close> and then dereferenced: the
  call ends in the null dereference, no error branch is taken.
\<close>

theorem try_delete_null_deref:
  assumes "is_tree (heap s) (root s) t" and "0 \<le> n"
    and "length (matching b d (heap s) (inorder t)) \<le> nat n"
  shows "try_delete n b d s = Some (Inl (NullDeref, s\<lparr>removed_nodes := removed_nodes s @ [None]\<rparr>))"
  using assms by (rule try_delete_null)

theorem try_delete_null_deref_witness:
  "is_tree (heap ex_tree) (root ex_tree) ex_shape \<and> (0::int) \<le> 2
   \<and> length (matching 0 True (heap ex_tree) (inorder ex_shape)) \<le> nat 2
   \<and> try_delete 2 0 True ex_tree = Some (Inl (NullDeref, ex_tree\<lparr>removed_nodes := removed_nodes ex_tree @ [None]\<rparr>))"
proof -
  have a: "is_tree (heap ex_tree) (root ex_tree) ex_shape" by (simp add: ex_defs)
  have b: "length (matching 0 True (heap ex_tree) (inorder ex_shape)) \<le> nat 2"
    by (simp add: ex_defs matching_def)
  show ?thesis using a b try_delete_null_deref[OF a _ b] by simp
qed

text \<open>
  C7. On a well-formed search tree that holds at least \<open>n + 1\<close> operators of the given
  dagger tag and block index, \<open>try_delete n b d\<close> finds the \<open>(n + 1)\<close>-th of them in the
  order of the tree: the walk stops at the match (its result is the one of the walk over
  the nodes up to the match, and its counter is \<open>n + 1\<close> there). The call returns the time
  point of that node, sets its delete flag, leaves the root and every child pointer as
  they were, marks every node on the path from the root to the node as modified and
  lowers \<open>tree_size\<close> by one.
\<close>

theorem try_delete_nth_match:
  assumes "is_tree (heap s) (root s) t" and "distinct (inorder t)" and "bst (heap s) t"
    and "0 \<le> n" and "nat n < length (matching b d (heap s) (inorder t))"
  shows "\<exists>x s'. x = matching b d (heap s) (inorder t) ! nat n
     \<and> find_if s (delete_pred n b d) = Some (Some x, n + 1)
     \<and> find_list (delete_pred n b d) 0 (heap s) (takeWhile (\<lambda>a. a \<noteq> x) (inorder t) @ [x]) = (Some x, n + 1)
     \<and> try_delete n b d s = Some (Inr (key (heap s x), s'))
     \<and> delete_flag (heap s' x)
     \<and> root s' = root s \<and> is_tree (heap s') (root s') t
     \<and> (\<forall>a. left (heap s' a) = left (heap s a) \<and> right (heap s' a) = right (heap s a))
     \<and> last (root_path x t) = x
     \<and> (\<forall>a \<in> set (root_path x t). modified (heap s' a))
     \<and> tree_size s' = tree_size s - 1"
proof -
  define x where "x = matching b d (heap s) (inorder t) ! nat n"
  have xin: "x \<in> set (inorder t)" using assms(5) by (simp add: x_def matching_nth_in)
  have fl: "find_list (delete_pred n b d) 0 (heap s) (inorder t) = (Some x, n + 1)"
    using assms(4,5) by (simp add: find_list_delete_pred x_def)
  have fi: "find_if s (delete_pred n b d) = Some (Some x, n + 1)"
    by (simp add: find_if_def find_if_impl_tree[OF assms(1)] fl)
  note st = try_delete_state[OF assms(1,2,3,4,5) x_def]
  have xp: "x \<in> set (root_path x t)" using root_path_last[OF xin] last_in_set by metis
  show ?thesis
    apply (rule exI[of _ x])
    apply (rule exI)
    apply (intro conjI)
              apply (rule x_def)
             apply (rule fi)
            apply (rule find_list_prefix[OF assms(2) fl])
           apply (rule st)
    using xp assms(1) root_path_last[OF xin]
          apply (simp_all add: heap_map_def)
    apply (rule is_tree_frame[OF assms(1)])
    apply (simp add: heap_map_def)
    done
qed

theorem try_delete_nth_match_witness:
  "is_tree (heap ex_tree) (root ex_tree) ex_shape \<and> distinct (inorder ex_shape) \<and> bst (heap ex_tree) ex_shape
   \<and> (0::int) \<le> 1 \<and> nat 1 < length (matching 0 True (heap ex_tree) (inorder ex_shape))
   \<and> matching 0 True (heap ex_tree) (inorder ex_shape) ! nat 1 = 12
   \<and> root_path 12 ex_shape = [10, 12]
   \<and> (\<exists>x s'. x = matching 0 True (heap ex_tree) (inorder ex_shape) ! nat 1
     \<and> find_if ex_tree (delete_pred 1 0 True) = Some (Some x, 1 + 1)
     \<and> find_list (delete_pred 1 0 True) 0 (heap ex_tree) (takeWhile (\<lambda>a. a \<noteq> x) (inorder ex_shape) @ [x]) = (Some x, 1 + 1)
     \<and> try_delete 1 0 True ex_tree = Some (Inr (key (heap ex_tree x), s'))
     \<and> delete_flag (heap s' x)
     \<and> root s' = root ex_tree \<and> is_tree (heap s') (root s') ex_shape
     \<and> (\<forall>a. left (heap s' a) = left (heap ex_tree a) \<and> right (heap s' a) = right (heap ex_tree a))
     \<and> last (root_path x ex_shape) = x
     \<and> (\<forall>a \<in> set (root_path x ex_shape). modified (heap s' a))
     \<and> tree_size s' = tree_size ex_tree - 1)"
proof -
  have a: "is_tree (heap ex_tree) (root ex_tree) ex_shape" by (simp add: ex_defs)
  have b: "distinct (inorder ex_shape)" by (simp add: ex_defs)
  have c: "bst (heap ex_tree) ex_shape" by (simp add: ex_defs)
  have d: "nat 1 < length (matching 0 True (heap ex_tree) (inorder ex_shape))"
    by (simp add: ex_defs matching_def)
  have e: "matching 0 True (heap ex_tree) (inorder ex_shape) ! nat 1 = 12" "root_path 12 ex_shape = [10, 12]"
    by (simp_all add: ex_defs matching_def)
  have f: "(0::int) \<le> 1" by simp
  from try_delete_nth_match[OF a b c f d] a b c d e f show ?thesis by (intro conjI) assumption+
qed

text \<open>
  C4. On a well-formed search tree, with a free trial node left in the pool, \<open>try_insert\<close>
  at a time point that is the key of a node linked in the tree raises
  \<open>rbt_insert_error\<close>: the root, the shape of the tree, every node of the tree and
  \<open>tree_size\<close> are as before the call, so the node is not inserted. The trial node
  has been taken from the pool by then: the index of the pool is one higher.
\<close>

theorem try_insert_duplicate_key:
  assumes "is_tree (heap s) (root s) t" and "bst (heap s) t"
    and "x \<in> set (inorder t)" and "key (heap s x) = tau"
    and "index (trial_nodes s) \<le> 3"
    and "in_range (index (trial_nodes s) + 1) (nodes (trial_nodes s))"
    and "in_range (index (trial_nodes s) + 1) (inserted_nodes s)"
    and "nodes (trial_nodes s) ! nat (index (trial_nodes s) + 1) = Some na"
    and "na \<notin> set (inorder t)"
  shows "\<exists>s'. try_insert tau o_new s = Some (Inl (RbtInsertError, s'))
     \<and> root s' = root s \<and> is_tree (heap s') (root s') t
     \<and> list_all (\<lambda>a. heap s' a = heap s a) (inorder t)
     \<and> tree_size s' = tree_size s
     \<and> index (trial_nodes s') = index (trial_nodes s) + 1"
proof -
  let ?j = "index (trial_nodes s) + 1"
  let ?s3 = "reset na tau o_new
      (s\<lparr>trial_nodes := (trial_nodes s)\<lparr>i := ?j\<rparr>,
         inserted_nodes := (inserted_nodes s)[nat ?j := (None, False)]\<rparr>)"
  have hs3: "heap ?s3 = (heap s)(na := (heap s na)\<lparr>key := tau, op := o_new\<rparr>)"
    by (simp add: reset_def)
  have same: "\<And>a. a \<in> set (inorder t) \<Longrightarrow> heap ?s3 a = heap s a"
    using assms(9) by (auto simp: hs3)
  have t3: "is_tree (heap ?s3) (root ?s3) t"
    using is_tree_frame[OF assms(1), of "heap ?s3"] same by (simp add: reset_def node_update_def)
  have kf: "key_found (heap ?s3) tau t"
    using bst_key_found[OF assms(2,3,4)] key_found_cong[of t "heap ?s3" "heap s" tau] same by simp
  have k3: "key (heap ?s3 na) = tau" by (simp add: hs3)
  have fail: "try_insert_impl (root ?s3) (Some na) ?s3 = Some (Inl (RbtInsertError, ?s3))"
    by (rule try_insert_impl_found[OF t3 kf k3])
  have "try_insert tau o_new s = Some (Inl (RbtInsertError, ?s3))"
    using assms(5,6,7,8) fail
    by (simp add: try_insert_def take_next_def index_def Let_def)
  moreover have "root ?s3 = root s" "tree_size ?s3 = tree_size s"
    "index (trial_nodes ?s3) = index (trial_nodes s) + 1"
    by (simp_all add: reset_def node_update_def index_def)
  moreover have "list_all (\<lambda>a. heap ?s3 a = heap s a) (inorder t)"
    using same by (simp add: list_all_iff)
  ultimately show ?thesis using t3 by auto
qed

theorem try_insert_duplicate_key_witness:
  "is_tree (heap ex_tree) (root ex_tree) ex_shape \<and> bst (heap ex_tree) ex_shape
   \<and> 11 \<in> set (inorder ex_shape) \<and> key (heap ex_tree 11) = 70
   \<and> index (trial_nodes ex_tree) \<le> 3
   \<and> in_range (index (trial_nodes ex_tree) + 1) (nodes (trial_nodes ex_tree))
   \<and> in_range (index (trial_nodes ex_tree) + 1) (inserted_nodes ex_tree)
   \<and> nodes (trial_nodes ex_tree) ! nat (index (trial_nodes ex_tree) + 1) = Some 0
   \<and> 0 \<notin> set (inorder ex_shape)
   \<and> (\<exists>s'. try_insert 70 default_op ex_tree = Some (Inl (RbtInsertError, s'))
     \<and> root s' = root ex_tree \<and> is_tree (heap s') (root s') ex_shape
     \<and> list_all (\<lambda>a. heap s' a = heap ex_tree a) (inorder ex_shape)
     \<and> tree_size s' = tree_size ex_tree
     \<and> index (trial_nodes s') = index (trial_nodes ex_tree) + 1)"
proof -
  have a: "is_tree (heap ex_tree) (root ex_tree) ex_shape" by (simp add: ex_defs)
  have b: "bst (heap ex_tree) ex_shape" by (simp add: ex_defs)
  have c: "11 \<in> set (inorder ex_shape)" "key (heap ex_tree 11) = 70" by (simp_all add: ex_defs)
  have d: "index (trial_nodes ex_tree) \<le> 3"
    "in_range (index (trial_nodes ex_tree) + 1) (nodes (trial_nodes ex_tree))"
    "in_range (index (trial_nodes ex_tree) + 1) (inserted_nodes ex_tree)"
    "nodes (trial_nodes ex_tree) ! nat (index (trial_nodes ex_tree) + 1) = Some 0"
    "0 \<notin> set (inorder ex_shape)"
    by (simp_all add: ex_defs index_def in_range_def)
  from try_insert_duplicate_key[OF a b c d, of default_op] a b c d show ?thesis by (intro conjI) assumption+
qed

text \<open>
  C3. The state \<open>ex_four\<close> has four pending trial insertions, so the index of the pool
  is \<open>3\<close>. The guard of \<open>try_insert\<close> compares the index with \<open>3\<close> by \<open>>\<close>, so the fifth
  call passes the guard and \<open>take_next\<close> reads \<open>nodes[4]\<close> of a pool of four nodes: the
  call ends in the access outside the vector, not in the usage error.
\<close>

theorem fifth_try_insert_out_of_range:
  "try_insert_seq ex_inserts ex_empty = Some (Inr ex_four)
   \<and> index (trial_nodes ex_four) = 3 \<and> tree_size ex_four = 4
   \<and> try_insert 50 default_op ex_four = Some (Inl (OutOfRange, ex_four))"
  by (simp add: ex_four_def ex_inserts_def ex_defs insert_defs)




text \<open>
  C6. Take a state with no transaction pending: no node of the tree is marked modified,
  \<open>tree_size\<close> is the number of nodes, the index of the substitution pool is reset. With
  substitution tables that map each flavour index to itself, \<open>try_replace\<close> copies no node
  into the pool (its index stays \<open>-1\<close>, the nodes it held stay where they were; \<open>reserve\<close>
  may append fresh nodes), and \<open>confirm_replace\<close> then changes nothing at all. Root, shape,
  every node that existed before the call (cache entries included), \<open>tree_size\<close>, the
  density matrix and the atomic data are as before. The trace and the weight are what
  \<open>compute\<close> reads off this state, whatever the numerical recomputation \<open>rc\<close> of the cache
  engine is.
\<close>

theorem identity_replace_is_noop:
  assumes t: "is_tree (heap s) (root s) t" and u: "unmodified (heap s) t"
    and al: "allocated s (inorder t)" and sz: "tree_size s = int (length (inorder t))"
    and id: "identity_table sc" "identity_table scd" and ops: "ops_in_range (heap s) sc scd t"
    and ir: "is_index_reset (backup_nodes s)"
  shows "\<exists>s1. try_replace sc scd s = Some (Inr s1) \<and> confirm_replace rc s1 = Some (Inr s1)
     \<and> root s1 = root s \<and> is_tree (heap s1) (root s1) t
     \<and> (\<forall>a < next_free s. heap s1 a = heap s a)
     \<and> tree_size s1 = tree_size s
     \<and> density_matrix s1 = density_matrix s \<and> atomic_rho s1 = atomic_rho s
     \<and> atomic_z s1 = atomic_z s \<and> atomic_norm s1 = atomic_norm s
     \<and> index (backup_nodes s1) = - 1
     \<and> take (length (nodes (backup_nodes s))) (nodes (backup_nodes s1)) = nodes (backup_nodes s)"
proof (cases "tree_size s = 0")
  case True
  then have "try_replace sc scd s = Some (Inr s)" by (simp add: try_replace_def)
  moreover have "confirm_replace rc s = Some (Inr s)" by (rule confirm_replace_clean[OF t u ir])
  ultimately show ?thesis using t ir by (auto simp: index_def is_index_reset_def)
next
  case False
  with sz have tne: "t \<noteq> Leaf" by auto
  obtain bp s1 where r: "reserve (rbt_size s) (backup_nodes s) s = (bp, s1)"
    by (cases "reserve (rbt_size s) (backup_nodes s) s")
  note fr = reserve_frame[OF r]
  define s2 where "s2 = s1\<lparr>backup_nodes := bp\<rparr>"
  have same: "\<And>a. a \<in> set (inorder t) \<Longrightarrow> heap s2 a = heap s a"
    using fr al by (auto simp: s2_def allocated_def list_all_iff)
  from fr have eq: "s1 = s\<lparr>heap := heap s1, next_free := next_free s1\<rparr>" by blast
  note ff = frame_fields[OF eq]
  have r2: "root s2 = root s" using ff by (simp add: s2_def)
  have r1: "root s1 = root s" using ff by simp
  have t2: "is_tree (heap s2) (root s2) t"
    unfolding r2 by (rule is_tree_frame[OF t]) (simp add: same)
  have u2: "unmodified (heap s2) t" using u same by (simp add: unmodified_def list_all_iff)
  have o2: "ops_in_range (heap s2) sc scd t" using ops same by (simp add: ops_in_range_def list_all_iff)
  have i2: "is_index_reset (backup_nodes s2)" using fr ir by (simp add: s2_def is_index_reset_def)
  have impl: "try_replace_impl (root s2) sc scd s2 = Some (Inr (root s2, s2))"
    by (rule try_replace_impl_identity[OF id t2 tne o2])
  have tr: "try_replace sc scd s = Some (Inr s2)"
    using False ir impl by (simp add: try_replace_def r s2_def[symmetric] r2 r1)
  have cf: "confirm_replace rc s2 = Some (Inr s2)" by (rule confirm_replace_clean[OF t2 u2 i2])
  have rest: "tree_size s2 = tree_size s" "density_matrix s2 = density_matrix s" "atomic_rho s2 = atomic_rho s"
    "atomic_z s2 = atomic_z s" "atomic_norm s2 = atomic_norm s"
    using ff by (simp_all add: s2_def)
  have hp: "\<forall>a < next_free s. heap s2 a = heap s a" using fr by (simp add: s2_def)
  have pool: "index (backup_nodes s2) = - 1"
    "take (length (nodes (backup_nodes s))) (nodes (backup_nodes s2)) = nodes (backup_nodes s)"
    using fr i2 by (simp_all add: s2_def index_def is_index_reset_def)
  from tr cf r2 t2 hp rest pool show ?thesis by blast
qed

theorem identity_replace_is_noop_witness:
  "is_tree (heap ex_tree) (root ex_tree) ex_shape \<and> unmodified (heap ex_tree) ex_shape
   \<and> allocated ex_tree (inorder ex_shape) \<and> tree_size ex_tree = int (length (inorder ex_shape))
   \<and> identity_table ex_c \<and> identity_table ex_c_dag \<and> ops_in_range (heap ex_tree) ex_c ex_c_dag ex_shape
   \<and> is_index_reset (backup_nodes ex_tree)
   \<and> (\<exists>s1. try_replace ex_c ex_c_dag ex_tree = Some (Inr s1)
     \<and> confirm_replace (\<lambda>a s. new_cache 1) s1 = Some (Inr s1)
     \<and> root s1 = root ex_tree \<and> is_tree (heap s1) (root s1) ex_shape
     \<and> (\<forall>a < next_free ex_tree. heap s1 a = heap ex_tree a)
     \<and> tree_size s1 = tree_size ex_tree
     \<and> density_matrix s1 = density_matrix ex_tree \<and> atomic_rho s1 = atomic_rho ex_tree
     \<and> atomic_z s1 = atomic_z ex_tree \<and> atomic_norm s1 = atomic_norm ex_tree
     \<and> index (backup_nodes s1) = - 1
     \<and> take (length (nodes (backup_nodes ex_tree))) (nodes (backup_nodes s1)) = nodes (backup_nodes ex_tree))"
proof -
  have a: "is_tree (heap ex_tree) (root ex_tree) ex_shape" by (simp add: ex_defs)
  have b: "unmodified (heap ex_tree) ex_shape" by (simp add: ex_defs unmodified_def)
  have c: "allocated ex_tree (inorder ex_shape)" by (simp add: ex_defs allocated_def)
  have d: "tree_size ex_tree = int (length (inorder ex_shape))" by (simp add: ex_defs)
  have e: "identity_table ex_c" "identity_table ex_c_dag"
    by (simp_all add: identity_table_def ex_c_def ex_c_dag_def ex_op_def upt_rec)
  have f: "ops_in_range (heap ex_tree) ex_c ex_c_dag ex_shape"
    by (simp add: ops_in_range_def ex_defs ex_c_def ex_c_dag_def in_range_def)
  have g: "is_index_reset (backup_nodes ex_tree)" by (simp add: ex_defs is_index_reset_def)
  from identity_replace_is_noop[OF a b c d e f g, of "\<lambda>a s. new_cache 1"] a b c d e f g
  show ?thesis by (intro conjI) assumption+
qed

text \<open>
  C1, as stated, fails. \<open>cancel_insert\<close> sets \<open>tree_size\<close> to the size of the tree and
  clears every modified flag, so it does not restore a state that had a deletion pending
  before the first \<open>try_insert\<close> (the shift transaction has \<open>cancel_shift\<close> for that): here
  \<open>tree_size\<close> is \<open>2\<close> before the insertion and \<open>3\<close> after \<open>cancel_insert\<close>, and the mark on the
  path to the node flagged for deletion is gone.
\<close>

theorem cancel_insert_pending_delete_counterexample:
  "try_delete 0 0 True ex_tree = Some (Inr (70, ex_deleted))
   \<and> try_insert_seq [(60, default_op)] ex_deleted = Some (Inr ex_deleted_inserted)
   \<and> cancel_insert ex_deleted_inserted = Some (Inr ex_deleted_cancelled)
   \<and> tree_size ex_deleted = 2 \<and> tree_size ex_deleted_cancelled = 3
   \<and> modified (heap ex_deleted 11) \<and> \<not> modified (heap ex_deleted_cancelled 11)"
proof -
  have a: "try_delete 0 0 True ex_tree = Some (Inr (70, ex_deleted))"
    by (simp add: ex_deleted_def ex_defs delete_defs)
  have b: "try_insert_seq [(60, default_op)] ex_deleted = Some (Inr ex_deleted_inserted)"
    by (simp add: ex_deleted_inserted_def ex_deleted_def ex_defs delete_defs insert_defs)
  have c: "cancel_insert ex_deleted_inserted = Some (Inr ex_deleted_cancelled)"
    by (simp add: ex_deleted_cancelled_def ex_deleted_inserted_def ex_deleted_def ex_defs delete_defs
        insert_defs cancel_defs)
  have d: "tree_size ex_deleted = 2" "modified (heap ex_deleted 11)"
    by (simp_all add: ex_deleted_def ex_defs delete_defs)
  have e: "tree_size ex_deleted_cancelled = 3" "\<not> modified (heap ex_deleted_cancelled 11)"
    by (simp_all add: ex_deleted_cancelled_def ex_deleted_inserted_def ex_deleted_def ex_defs delete_defs
        insert_defs cancel_defs)
  from a b c d e show ?thesis by simp
qed

text \<open>
  C1, amended. From a state with no transaction pending, after any sequence of
  \<open>try_insert\<close> calls that all return normally, \<open>cancel_insert\<close> returns and restores the
  instance: the root, the shape of the tree, every node of the tree with all its fields
  (key, operator, cache, child pointers, colour, size, flags), \<open>tree_size\<close>, the atomic
  partition function, the density matrix and the atomic density matrix are those before
  the first call, and the state has again no transaction pending.
\<close>

theorem cancel_insert_restores:
  assumes "clean s0 t0" and "try_insert_seq ins s0 = Some (Inr s)"
  shows "\<exists>s'. cancel_insert s = Some (Inr s')
     \<and> root s' = root s0 \<and> is_tree (heap s') (root s') t0
     \<and> list_all (\<lambda>a. heap s' a = heap s0 a) (inorder t0)
     \<and> tree_size s' = tree_size s0
     \<and> atomic_z s' = atomic_z s0 \<and> density_matrix s' = density_matrix s0
     \<and> atomic_rho s' = atomic_rho s0 \<and> atomic_norm s' = atomic_norm s0
     \<and> clean s' t0"
proof -
  from pending_try_insert_seq[OF assms(1) pending_init[OF assms(1)] assms(2)]
  obtain t k where "pending s0 t0 s t k" by blast
  from cancel_insert_pending[OF assms(1) this] show ?thesis .
qed

theorem cancel_insert_restores_witness:
  "clean ex_tree ex_shape
   \<and> try_insert_seq [(60, default_op), (20, default_op)] ex_tree = Some (Inr ex_two)
   \<and> root ex_two = Some 10 \<and> right (heap ex_two 12) = Some 1 \<and> right (heap ex_two 11) = Some 0
   \<and> (\<exists>s'. cancel_insert ex_two = Some (Inr s')
     \<and> root s' = root ex_tree \<and> is_tree (heap s') (root s') ex_shape
     \<and> list_all (\<lambda>a. heap s' a = heap ex_tree a) (inorder ex_shape)
     \<and> tree_size s' = tree_size ex_tree
     \<and> atomic_z s' = atomic_z ex_tree \<and> density_matrix s' = density_matrix ex_tree
     \<and> atomic_rho s' = atomic_rho ex_tree \<and> atomic_norm s' = atomic_norm ex_tree
     \<and> clean s' ex_shape)"
proof -
  have b: "try_insert_seq [(60, default_op), (20, default_op)] ex_tree = Some (Inr ex_two)"
    by (simp add: ex_two_def ex_defs insert_defs)
  have c: "root ex_two = Some 10" "right (heap ex_two 12) = Some 1" "right (heap ex_two 11) = Some 0"
    by (simp_all add: ex_two_def ex_defs insert_defs)
  from cancel_insert_restores[OF clean_ex_tree b] clean_ex_tree b c
  show ?thesis by (intro conjI) assumption+
qed

text \<open>
  The amended C1 leaves out the calls of \<open>try_insert\<close> that raise. A call that raises
  \<open>rbt_insert_error\<close> has taken a node from the pool but has not counted it in
  \<open>tree_size\<close>, and the test \<open>tree_size == trial_nodes.index() + 1\<close> of \<open>cancel_insert_impl\<close>
  then compares the wrong numbers: on a tree of one node, \<open>cancel_insert\<close> after the
  failed call drops the root.
\<close>

theorem cancel_after_failed_insert_drops_root:
  "clean ex_one (Node Leaf 10 Leaf)
   \<and> try_insert 50 default_op ex_one = Some (Inl (RbtInsertError, ex_one_failed))
   \<and> root ex_one_failed = Some 10 \<and> tree_size ex_one_failed = 1 \<and> index (trial_nodes ex_one_failed) = 0
   \<and> cancel_insert ex_one_failed = Some (Inr ex_one_cancelled)
   \<and> root ex_one_cancelled = None \<and> tree_size ex_one_cancelled = 0"
proof -
  have a: "try_insert 50 default_op ex_one = Some (Inl (RbtInsertError, ex_one_failed))"
    by (simp add: ex_one_failed_def ex_one_def ex_defs insert_defs)
  have b: "root ex_one_failed = Some 10" "tree_size ex_one_failed = 1" "index (trial_nodes ex_one_failed) = 0"
    by (simp_all add: ex_one_failed_def ex_one_def ex_defs insert_defs)
  have c: "cancel_insert ex_one_failed = Some (Inr ex_one_cancelled)"
    by (simp add: ex_one_cancelled_def ex_one_failed_def ex_one_def ex_defs insert_defs cancel_defs)
  have d: "root ex_one_cancelled = None" "tree_size ex_one_cancelled = 0"
    by (simp_all add: ex_one_cancelled_def ex_one_failed_def ex_one_def ex_defs insert_defs cancel_defs)
  from clean_ex_one a b c d show ?thesis by simp
qed

text \<open>
  C9, as stated, fails for the replace transaction: the destructor calls
  \<open>cancel_insert_impl\<close> only. After a \<open>try_replace\<close> that substitutes the root, the
  teardown path leaves the node of the substitution pool (address \<open>13\<close>) as the root of
  the tree, and the former root (address \<open>10\<close>) in the pool.
\<close>

theorem teardown_pending_replace_counterexample:
  "try_replace ex_c_swap ex_c_dag ex_tree = Some (Inr ex_swapped)
   \<and> root ex_tree = Some 10 \<and> nodes (backup_nodes ex_tree) = []
   \<and> teardown ex_swapped = Inr ex_swapped
   \<and> root ex_swapped = Some 13
   \<and> nodes (backup_nodes ex_swapped) = [Some 10, Some 14, Some 15]
   \<and> index (backup_nodes ex_swapped) = 0"
  by (simp add: ex_swapped_def ex_c_swap_def ex_c_dag_def ex_defs replace_defs teardown_def
      cancel_insert_impl_def index_def)

text \<open>
  C9, amended, for the insert transaction. From a state with no transaction pending,
  after any sequence of \<open>try_insert\<close> calls that all return normally, the teardown path
  returns and unlinks every trial node: the tree at the root is the tree before the
  transaction, no node of the trial pool is a node of it, and every node of the trial
  pool has both child pointers reset.
\<close>

theorem teardown_unlinks_trial_nodes:
  assumes "clean s0 t0" and "try_insert_seq ins s0 = Some (Inr s)"
  shows "\<exists>s'. teardown s = Inr s'
     \<and> root s' = root s0 \<and> is_tree (heap s') (root s') t0
     \<and> list_all (\<lambda>a. a \<notin> set (inorder t0)) (pool_addrs (trial_nodes s'))
     \<and> list_all (\<lambda>a. left (heap s' a) = None \<and> right (heap s' a) = None) (pool_addrs (trial_nodes s'))"
proof -
  from pending_try_insert_seq[OF assms(1) pending_init[OF assms(1)] assms(2)]
  obtain t k where p: "pending s0 t0 s t k" by blast
  note P = pendingD[OF p]
  note C = cleanD[OF assms(1)]
  define H where "H = (\<lambda>a. unlinked [0 ..< k] (inserted_nodes s) a (heap s a))"
  note ci = cancel_insert_impl_pending[OF assms(1) p, folded H_def]
  have chH: "\<And>sd a. get_child sd (H a) = get_child sd (heap s0 a)"
    using cancel_insert_impl_pending(2)[OF assms(1) p] by (simp add: H_def)
  let ?s' = "s\<lparr>heap := H, root := root s0\<rparr>"
  have pa: "pool_addrs (trial_nodes ?s') = pool_addrs (trial_nodes s0)"
    by (simp add: P(1) pool_addrs_def)
  have "teardown s = Inr ?s'" by (simp add: teardown_def ci(1))
  moreover have "root ?s' = root s0" "is_tree (heap ?s') (root ?s') t0" using ci(3) by simp_all
  moreover have "list_all (\<lambda>a. a \<notin> set (inorder t0)) (pool_addrs (trial_nodes ?s'))"
    unfolding pa using C(2) by (auto simp: list_all_iff)
  moreover have "list_all (\<lambda>a. left (heap ?s' a) = None \<and> right (heap ?s' a) = None) (pool_addrs (trial_nodes ?s'))"
    unfolding pa using C(9) chH[of True] chH[of False] by (simp add: list_all_iff)
  ultimately show ?thesis by blast
qed

theorem teardown_unlinks_trial_nodes_witness:
  "clean ex_tree ex_shape
   \<and> try_insert_seq [(60, default_op), (20, default_op)] ex_tree = Some (Inr ex_two)
   \<and> (\<exists>s'. teardown ex_two = Inr s'
     \<and> root s' = root ex_tree \<and> is_tree (heap s') (root s') ex_shape
     \<and> list_all (\<lambda>a. a \<notin> set (inorder ex_shape)) (pool_addrs (trial_nodes s'))
     \<and> list_all (\<lambda>a. left (heap s' a) = None \<and> right (heap s' a) = None) (pool_addrs (trial_nodes s')))"
proof -
  have b: "try_insert_seq [(60, default_op), (20, default_op)] ex_tree = Some (Inr ex_two)"
    by (simp add: ex_two_def ex_defs insert_defs)
  from teardown_unlinks_trial_nodes[OF clean_ex_tree b] clean_ex_tree b
  show ?thesis by (intro conjI) assumption+
qed

text \<open>
  The amended C9 leaves out a transaction in which a \<open>try_insert\<close> raised: on an empty
  tree, after one insertion and a second one that raises \<open>rbt_insert_error\<close>, the teardown
  path leaves the first trial node as the root of the tree.
\<close>

theorem teardown_after_failed_insert_keeps_trial_root:
  "try_insert 50 default_op ex_empty = Some (Inr ex_first)
   \<and> root ex_first = Some 0 \<and> nodes (trial_nodes ex_first) ! 0 = Some 0
   \<and> try_insert 50 default_op ex_first = Some (Inl (RbtInsertError, ex_first_failed))
   \<and> teardown ex_first_failed = Inr ex_first_failed
   \<and> root ex_first_failed = Some 0"
proof -
  have a: "try_insert 50 default_op ex_empty = Some (Inr ex_first)"
    by (simp add: ex_first_def ex_defs insert_defs)
  have b: "root ex_first = Some 0" "nodes (trial_nodes ex_first) ! 0 = Some 0"
    by (simp_all add: ex_first_def ex_defs insert_defs)
  have c: "try_insert 50 default_op ex_first = Some (Inl (RbtInsertError, ex_first_failed))"
    by (simp add: ex_first_failed_def ex_first_def ex_defs insert_defs)
  have d: "teardown ex_first_failed = Inr ex_first_failed" "root ex_first_failed = Some 0"
    by (simp_all add: ex_first_failed_def ex_first_def ex_defs insert_defs teardown_def cancel_insert_impl_def upt_rec)
  from a b c d show ?thesis by simp
qed




end
